theory Spec2Isabelle
  imports Complex_Main
begin

section \<open>JavaScript number values\<close>

text \<open>
  The toolkit computes on JavaScript numbers, the values of IEEE 754 binary64. A number is
  modelled as a finite real or one of the three special values: the two infinities and
  NaN. Division by zero, \<open>0 * Infinity\<close> and \<open>Infinity - Infinity\<close> behave as in the
  language. There is a single zero, which behaves as \<open>+0\<close> when it is a divisor.

  Two families of operations follow. The operations \<open>js_add\<close>, \<open>js_mul\<close>, ... compute a
  finite result exactly. The operations \<open>fl_add\<close>, \<open>fl_mul\<close>, ... are the operations of
  the language: they round every finite result to the nearest double, ties to even, and
  overflow to an infinity. The correlation module and the statistics module are modelled
  with the rounded operations. The FTRT calculator is modelled with the exact ones, which
  idealises its arithmetic: the rounding of its products and quotients and the error of
  the cosine are not modelled there.
\<close>

datatype jsnum = Fin real | PInf | NInf | NaN

fun js_neg :: "jsnum \<Rightarrow> jsnum" where
  "js_neg (Fin a) = Fin (- a)"
| "js_neg PInf = NInf"
| "js_neg NInf = PInf"
| "js_neg NaN = NaN"

fun js_add :: "jsnum \<Rightarrow> jsnum \<Rightarrow> jsnum" where
  "js_add (Fin a) (Fin b) = Fin (a + b)"
| "js_add NaN _ = NaN"
| "js_add _ NaN = NaN"
| "js_add PInf NInf = NaN"
| "js_add NInf PInf = NaN"
| "js_add PInf _ = PInf"
| "js_add _ PInf = PInf"
| "js_add NInf _ = NInf"
| "js_add _ NInf = NInf"

definition js_sub :: "jsnum \<Rightarrow> jsnum \<Rightarrow> jsnum" where
  "js_sub a b = js_add a (js_neg b)"

fun js_mul :: "jsnum \<Rightarrow> jsnum \<Rightarrow> jsnum" where
  "js_mul (Fin a) (Fin b) = Fin (a * b)"
| "js_mul NaN _ = NaN"
| "js_mul _ NaN = NaN"
| "js_mul (Fin a) PInf = (if a = 0 then NaN else if 0 < a then PInf else NInf)"
| "js_mul (Fin a) NInf = (if a = 0 then NaN else if 0 < a then NInf else PInf)"
| "js_mul PInf (Fin b) = (if b = 0 then NaN else if 0 < b then PInf else NInf)"
| "js_mul NInf (Fin b) = (if b = 0 then NaN else if 0 < b then NInf else PInf)"
| "js_mul PInf PInf = PInf"
| "js_mul NInf NInf = PInf"
| "js_mul PInf NInf = NInf"
| "js_mul NInf PInf = NInf"

fun js_div :: "jsnum \<Rightarrow> jsnum \<Rightarrow> jsnum" where
  "js_div (Fin a) (Fin b) =
     (if b \<noteq> 0 then Fin (a / b)
      else if a = 0 then NaN
      else if 0 < a then PInf else NInf)"
| "js_div NaN _ = NaN"
| "js_div _ NaN = NaN"
| "js_div (Fin a) PInf = Fin 0"
| "js_div (Fin a) NInf = Fin 0"
| "js_div PInf (Fin b) = (if 0 \<le> b then PInf else NInf)"
| "js_div NInf (Fin b) = (if 0 \<le> b then NInf else PInf)"
| "js_div PInf PInf = NaN"
| "js_div PInf NInf = NaN"
| "js_div NInf PInf = NaN"
| "js_div NInf NInf = NaN"

text \<open>\<open>Math.sqrt\<close>, \<open>Math.floor\<close>, \<open>Math.ceil\<close>, \<open>Math.cos\<close>.\<close>

fun js_sqrt :: "jsnum \<Rightarrow> jsnum" where
  "js_sqrt (Fin a) = (if a < 0 then NaN else Fin (sqrt a))"
| "js_sqrt PInf = PInf"
| "js_sqrt NInf = NaN"
| "js_sqrt NaN = NaN"

fun js_floor :: "jsnum \<Rightarrow> jsnum" where
  "js_floor (Fin a) = Fin (of_int \<lfloor>a\<rfloor>)"
| "js_floor v = v"

fun js_ceil :: "jsnum \<Rightarrow> jsnum" where
  "js_ceil (Fin a) = Fin (of_int \<lceil>a\<rceil>)"
| "js_ceil v = v"

fun js_cos :: "jsnum \<Rightarrow> jsnum" where
  "js_cos (Fin a) = Fin (cos a)"
| "js_cos _ = NaN"

text \<open>\<open>Math.pow(v, n)\<close> for the literal exponents 2 and 3 that the source uses.\<close>

fun js_pow :: "jsnum \<Rightarrow> nat \<Rightarrow> jsnum" where
  "js_pow (Fin a) n = Fin (a ^ n)"
| "js_pow PInf n = (if n = 0 then Fin 1 else PInf)"
| "js_pow NInf n = (if n = 0 then Fin 1 else if even n then PInf else NInf)"
| "js_pow NaN n = (if n = 0 then Fin 1 else NaN)"

text \<open>Greater-than, less-than and strict equality: every comparison with NaN is false.\<close>

fun js_lt :: "jsnum \<Rightarrow> jsnum \<Rightarrow> bool" where
  "js_lt (Fin a) (Fin b) = (a < b)"
| "js_lt NaN _ = False"
| "js_lt _ NaN = False"
| "js_lt _ NInf = False"
| "js_lt PInf _ = False"
| "js_lt NInf _ = True"
| "js_lt _ PInf = True"

definition js_gt :: "jsnum \<Rightarrow> jsnum \<Rightarrow> bool" where
  "js_gt a b = js_lt b a"

definition js_strict_eq :: "jsnum \<Rightarrow> jsnum \<Rightarrow> bool" where
  "js_strict_eq a b = (a \<noteq> NaN \<and> a = b)"

text \<open>
  \<open>Math.min\<close> and \<open>Math.max\<close> of two numbers, and of a spread array: the fold starts
  from \<open>Infinity\<close> (respectively \<open>-Infinity\<close>), which is what the call returns with no
  argument.
\<close>

definition js_min2 :: "jsnum \<Rightarrow> jsnum \<Rightarrow> jsnum" where
  "js_min2 a b = (if a = NaN \<or> b = NaN then NaN else if js_lt b a then b else a)"

definition js_max2 :: "jsnum \<Rightarrow> jsnum \<Rightarrow> jsnum" where
  "js_max2 a b = (if a = NaN \<or> b = NaN then NaN else if js_lt a b then b else a)"

definition Math_min :: "jsnum list \<Rightarrow> jsnum" where
  "Math_min vs = foldl js_min2 PInf vs"

definition Math_max :: "jsnum list \<Rightarrow> jsnum" where
  "Math_max vs = foldl js_max2 NInf vs"

text \<open>
  Reading \<open>arr[i]\<close> where \<open>i\<close> is a number: an index that is not an integer inside the
  array yields \<open>undefined\<close>. The readers below serve the two uses the source makes of such
  a read: in arithmetic \<open>undefined\<close> converts to NaN, and a property access on it raises.
\<close>

definition js_index :: "jsnum \<Rightarrow> nat \<Rightarrow> nat option" where
  "js_index i n =
     (case i of
        Fin r \<Rightarrow> (if r = of_int \<lfloor>r\<rfloor> \<and> 0 \<le> r \<and> nat \<lfloor>r\<rfloor> < n then Some (nat \<lfloor>r\<rfloor>) else None)
      | _ \<Rightarrow> None)"

definition js_read_num :: "jsnum list \<Rightarrow> jsnum \<Rightarrow> jsnum" where
  "js_read_num arr i = (case js_index i (length arr) of Some k \<Rightarrow> arr ! k | None \<Rightarrow> NaN)"

datatype js_error = Error string | TypeError | RangeError

definition constant_array :: "'a list \<Rightarrow> bool" where
  "constant_array xs = (\<forall>v \<in> set xs. v = hd xs)"

section \<open>Rounding to binary64\<close>

text \<open>
  Rounding to the nearest integer, ties to the even one; the binade of a real, which is
  the exponent of the power of two below its magnitude, held at -1022 in the subnormal
  range; and the rounding \<open>fl\<close> of a real to a double. In the binade \<open>e\<close> the doubles are
  the multiples of \<open>2 powi (e - 52)\<close>; a rounded magnitude of \<open>2 ^ 1024\<close> or more is an
  overflow.
\<close>

definition round_even :: "real \<Rightarrow> int" where
  "round_even q =
     (let f = \<lfloor>q\<rfloor>
      in if q - of_int f < 1 / 2 then f
         else if 1 / 2 < q - of_int f then f + 1
         else if even f then f else f + 1)"

definition binade :: "real \<Rightarrow> int" where
  "binade x = (if x = 0 then - 1022 else max \<lfloor>log 2 \<bar>x\<bar>\<rfloor> (- 1022))"

definition fl :: "real \<Rightarrow> jsnum" where
  "fl x =
     (let u = 2 powi (binade x - 52);
          r = of_int (round_even (x / u)) * u
      in if 2 ^ 1024 \<le> \<bar>r\<bar> then (if 0 < x then PInf else NInf) else Fin r)"

text \<open>A real is a double when rounding leaves it as it is.\<close>

definition is_double :: "real \<Rightarrow> bool" where
  "is_double r = (fl r = Fin r)"

fun rnd :: "jsnum \<Rightarrow> jsnum" where
  "rnd (Fin r) = fl r"
| "rnd v = v"

text \<open>
  The arithmetic of the language: the exact result, rounded. \<open>Math.sqrt\<close> and
  \<open>Math.pow\<close> with the exponent 2 are taken as correctly rounded.
\<close>

definition fl_add :: "jsnum \<Rightarrow> jsnum \<Rightarrow> jsnum" where
  "fl_add a b = rnd (js_add a b)"

definition fl_sub :: "jsnum \<Rightarrow> jsnum \<Rightarrow> jsnum" where
  "fl_sub a b = rnd (js_sub a b)"

definition fl_mul :: "jsnum \<Rightarrow> jsnum \<Rightarrow> jsnum" where
  "fl_mul a b = rnd (js_mul a b)"

definition fl_div :: "jsnum \<Rightarrow> jsnum \<Rightarrow> jsnum" where
  "fl_div a b = rnd (js_div a b)"

definition fl_sqrt :: "jsnum \<Rightarrow> jsnum" where
  "fl_sqrt a = rnd (js_sqrt a)"

definition fl_pow :: "jsnum \<Rightarrow> nat \<Rightarrow> jsnum" where
  "fl_pow a n = rnd (js_pow a n)"

section \<open>Correlation algorithms\<close>

text \<open>The private helper \<open>mean\<close> of the correlation module: no guard for the empty array.\<close>

definition corr_mean :: "jsnum list \<Rightarrow> jsnum" where
  "corr_mean arr = fl_div (foldl fl_add (Fin 0) arr) (Fin (real (length arr)))"

text \<open>
  The accumulation loop of \<open>pearsonCorrelation\<close>. It runs over \<open>i < x.length\<close> reading
  \<open>x[i]\<close> and \<open>y[i]\<close>; it is only reached when both arrays have the same length, so it is
  written as a recursion over both arrays at once.
\<close>

fun pearson_loop ::
  "jsnum \<Rightarrow> jsnum \<Rightarrow> jsnum list \<Rightarrow> jsnum list \<Rightarrow> jsnum \<times> jsnum \<times> jsnum \<Rightarrow> jsnum \<times> jsnum \<times> jsnum"
where
  "pearson_loop meanX meanY (a # x) (b # y) (numerator, denomX, denomY) =
     (let dx = fl_sub a meanX; dy = fl_sub b meanY
      in pearson_loop meanX meanY x y
           (fl_add numerator (fl_mul dx dy),
            fl_add denomX (fl_mul dx dx),
            fl_add denomY (fl_mul dy dy)))"
| "pearson_loop meanX meanY _ _ acc = acc"

definition pearsonCorrelation :: "jsnum list \<Rightarrow> jsnum list \<Rightarrow> js_error + jsnum" where
  "pearsonCorrelation x y =
     (if length x \<noteq> length y \<or> length x = 0
      then Inl (Error ''Arrays must be non-empty and of equal length'')
      else
        (case pearson_loop (corr_mean x) (corr_mean y) x y (Fin 0, Fin 0, Fin 0) of
           (numerator, denomX, denomY) \<Rightarrow>
             if js_strict_eq denomX (Fin 0) \<or> js_strict_eq denomY (Fin 0) then Inr (Fin 0)
             else Inr (fl_div numerator (fl_sqrt (fl_mul denomX denomY)))))"

text \<open>The value of the variable \<open>denomX\<close> when the loop of \<open>pearsonCorrelation\<close> ends.\<close>

definition final_denomX :: "jsnum list \<Rightarrow> jsnum list \<Rightarrow> jsnum" where
  "final_denomX x y =
     fst (snd (pearson_loop (corr_mean x) (corr_mean y) x y (Fin 0, Fin 0, Fin 0)))"

text \<open>
  \<open>Array.prototype.slice(start, end)\<close> with relative (possibly negative) bounds, and the
  one-argument form that runs to the end of the array. A bound that is a number is first
  cut to an integer, towards zero.
\<close>

definition js_slice :: "'a list \<Rightarrow> int \<Rightarrow> int \<Rightarrow> 'a list" where
  "js_slice arr start fin =
     (let len = int (length arr);
          k = (if start < 0 then max (len + start) 0 else min start len);
          f = (if fin < 0 then max (len + fin) 0 else min fin len)
      in take (nat (f - k)) (drop (nat k) arr))"

definition js_slice_from :: "'a list \<Rightarrow> int \<Rightarrow> 'a list" where
  "js_slice_from arr start = js_slice arr start (int (length arr))"

definition to_integer :: "real \<Rightarrow> int" where
  "to_integer r = (if 0 \<le> r then \<lfloor>r\<rfloor> else \<lceil>r\<rceil>)"

text \<open>
  \<open>new Array(len).fill(null)\<close>: the constructor raises a \<open>RangeError\<close> unless \<open>len\<close> is an
  integer with \<open>0 \<le> len < 2 ^ 32\<close>; the array it builds is then filled with \<open>null\<close>
  (\<open>None\<close>).
\<close>

definition new_Array_null :: "real \<Rightarrow> js_error + jsnum option list" where
  "new_Array_null len =
     (if len = of_int \<lfloor>len\<rfloor> \<and> 0 \<le> len \<and> len < 2 ^ 32
      then Inr (replicate (nat \<lfloor>len\<rfloor>) None) else Inl RangeError)"

text \<open>
  Reading \<open>x[i]\<close> at a natural index and using the value in arithmetic: past the end the
  read yields \<open>undefined\<close>, which every arithmetic operation turns into NaN.
\<close>

definition js_nth :: "jsnum list \<Rightarrow> nat \<Rightarrow> jsnum" where
  "js_nth arr i = (if i < length arr then arr ! i else NaN)"

text \<open>
  \<open>crossCorrelation\<close>. The loop counter \<open>lag\<close> is a number. The shifted copy of \<open>y\<close>
  holds numbers and \<open>null\<close> padding (\<open>None\<close>); building the padding can raise. The
  increment \<open>lag++\<close> is exact wherever it is reached: the iteration has then built its
  padding, so \<open>lag\<close> is an integer below \<open>2 ^ 32\<close> in magnitude.
\<close>

record cc_result =
  lag :: real
  correlation :: jsnum
  dataPoints :: nat

definition shiftY :: "jsnum list \<Rightarrow> real \<Rightarrow> js_error + jsnum option list" where
  "shiftY y l =
     (if 0 < l then
        (case new_Array_null l of
           Inl e \<Rightarrow> Inl e
         | Inr pad \<Rightarrow> Inr (pad @ map Some (js_slice y 0 (to_integer (- l)))))
      else if l < 0 then
        (case new_Array_null (- l) of
           Inl e \<Rightarrow> Inl e
         | Inr pad \<Rightarrow> Inr (map Some (js_slice_from y (to_integer (- l))) @ pad))
      else Inr (map Some y))"

definition validIndices :: "jsnum option list \<Rightarrow> nat list" where
  "validIndices shiftedY = filter (\<lambda>idx. shiftedY ! idx \<noteq> None) [0..<length shiftedY]"

definition validX :: "jsnum list \<Rightarrow> jsnum option list \<Rightarrow> jsnum list" where
  "validX x shiftedY = map (\<lambda>i. js_nth x i) (validIndices shiftedY)"

definition validY :: "jsnum option list \<Rightarrow> jsnum list" where
  "validY shiftedY =
     map (\<lambda>i. case shiftedY ! i of Some v \<Rightarrow> v | None \<Rightarrow> Fin 0) (validIndices shiftedY)"

function cc_loop ::
  "jsnum list \<Rightarrow> jsnum list \<Rightarrow> real \<Rightarrow> real \<Rightarrow> cc_result list \<Rightarrow> js_error + cc_result list"
where
  "cc_loop x y maxLag l results =
     (if l \<le> maxLag then
        (case shiftY y l of
           Inl e \<Rightarrow> Inl e
         | Inr shiftedY \<Rightarrow>
             if length (validX x shiftedY) > 0 then
               (case pearsonCorrelation (validX x shiftedY) (validY shiftedY) of
                  Inl e \<Rightarrow> Inl e
                | Inr c \<Rightarrow>
                    cc_loop x y maxLag (l + 1)
                      (results @ [\<lparr>lag = l, correlation = c,
                                   dataPoints = length (validX x shiftedY)\<rparr>]))
             else cc_loop x y maxLag (l + 1) results)
      else Inr results)"
  by pat_completeness auto
termination
  by (relation "measure (\<lambda>(x, y, maxLag, l, results). nat (\<lfloor>maxLag - l\<rfloor> + 1))")
     (auto simp: le_floor_iff, linarith+)

declare cc_loop.simps [simp del]

text \<open>
  The loop starts at \<open>-maxLag\<close>. When \<open>maxLag\<close> is NaN or \<open>-Infinity\<close> the loop condition
  is false at once. When it is \<open>Infinity\<close> the first iteration asks for an array of
  infinite length.
\<close>

definition crossCorrelation :: "jsnum list \<Rightarrow> jsnum list \<Rightarrow> jsnum \<Rightarrow> js_error + cc_result list" where
  "crossCorrelation x y maxLag =
     (case maxLag of
        Fin m \<Rightarrow> cc_loop x y m (- m) []
      | PInf \<Rightarrow> Inl RangeError
      | NInf \<Rightarrow> Inr []
      | NaN \<Rightarrow> Inr [])"

text \<open>
  The pairs that survive a shift by \<open>l\<close>: \<open>x[i]\<close> is paired with \<open>y[i - l]\<close> wherever both
  exist.
\<close>

definition aligned_x :: "jsnum list \<Rightarrow> int \<Rightarrow> jsnum list" where
  "aligned_x x l = (if 0 \<le> l then drop (nat l) x else take (length x - nat (- l)) x)"

definition aligned_y :: "jsnum list \<Rightarrow> int \<Rightarrow> jsnum list" where
  "aligned_y y l = (if 0 \<le> l then take (length y - nat l) y else drop (nat (- l)) y)"

section \<open>Statistical utility functions\<close>

definition mean :: "jsnum list \<Rightarrow> jsnum" where
  "mean data =
     (if length data = 0 then Fin 0
      else fl_div (foldl fl_add (Fin 0) data) (Fin (real (length data))))"

definition standardDeviation :: "jsnum list \<Rightarrow> bool \<Rightarrow> jsnum" where
  "standardDeviation data sample =
     (if length data = 0 then Fin 0
      else
        (let avg = mean data;
             squareDiffs = map (\<lambda>val. fl_pow (fl_sub val avg) 2) data;
             divisor = (if sample then Fin (real (length data) - 1) else Fin (real (length data)))
         in fl_sqrt (fl_mul (mean squareDiffs) (fl_div (Fin (real (length data))) divisor))))"

definition normalize :: "jsnum list \<Rightarrow> jsnum list" where
  "normalize data =
     (let mn = Math_min data;
          mx = Math_max data;
          range = fl_sub mx mn
      in if js_strict_eq range (Fin 0) then map (\<lambda>_. Fin (1 / 2)) data
         else map (\<lambda>val. fl_div (fl_sub val mn) range) data)"

text \<open>
  \<open>[...data].sort((a, b) => a - b)\<close>: a stable insertion sort driven by the comparator.
  On finite numbers the comparator is a consistent order and every engine returns the
  ascending arrangement; with NaN or infinities in the array the comparator is not
  consistent and the language leaves the order to the engine, so the model fixes one.
\<close>

fun sort_insert :: "jsnum \<Rightarrow> jsnum list \<Rightarrow> jsnum list" where
  "sort_insert a [] = [a]"
| "sort_insert a (b # bs) =
     (if js_gt (fl_sub a b) (Fin 0) then b # sort_insert a bs else a # b # bs)"

definition js_sort :: "jsnum list \<Rightarrow> jsnum list" where
  "js_sort data = foldr sort_insert data []"

text \<open>
  \<open>percentile\<close> has no \<open>throw\<close> and performs no property access on a value that can be
  missing: every path ends in \<open>return\<close>, which is why every branch is \<open>Inr\<close>.
\<close>

definition percentile :: "jsnum list \<Rightarrow> jsnum \<Rightarrow> js_error + jsnum" where
  "percentile data p =
     (if length data = 0 then Inr (Fin 0)
      else
        (let sorted = js_sort data;
             index = fl_mul (fl_div p (Fin 100)) (Fin (real (length sorted) - 1));
             lower = js_floor index;
             upper = js_ceil index;
             weight = fl_sub index lower
         in Inr (fl_add (fl_mul (js_read_num sorted lower) (fl_sub (Fin 1) weight))
                        (fl_mul (js_read_num sorted upper) weight))))"

text \<open>
  \<open>histogram\<close>. \<open>bins\<close> is the number of bins, a natural number. The statement
  \<open>histogram[binIndex].count++\<close> reads a property of \<open>histogram[binIndex]\<close>; when
  \<open>binIndex\<close> is not an index of the array that value is \<open>undefined\<close> and the engine raises
  a \<open>TypeError\<close>.
\<close>

record bin =
  bin_min :: jsnum
  bin_max :: jsnum
  bin_count :: nat
  bin_values :: "jsnum list"

definition empty_bins :: "jsnum \<Rightarrow> jsnum \<Rightarrow> nat \<Rightarrow> bin list" where
  "empty_bins mn binWidth bins =
     map (\<lambda>i. \<lparr>bin_min = fl_add mn (fl_mul (Fin (real i)) binWidth),
               bin_max = fl_add mn (fl_mul (Fin (real i + 1)) binWidth),
               bin_count = 0, bin_values = []\<rparr>) [0..<bins]"

fun histogram_fill ::
  "jsnum \<Rightarrow> jsnum \<Rightarrow> nat \<Rightarrow> jsnum list \<Rightarrow> bin list \<Rightarrow> js_error + bin list"
where
  "histogram_fill mn binWidth bins [] h = Inr h"
| "histogram_fill mn binWidth bins (val # rest) h =
     (let binIndex = js_min2 (js_floor (fl_div (fl_sub val mn) binWidth)) (Fin (real bins - 1))
      in case js_index binIndex (length h) of
           None \<Rightarrow> Inl TypeError
         | Some k \<Rightarrow>
             histogram_fill mn binWidth bins rest
               (h[k := (h ! k)\<lparr>bin_count := bin_count (h ! k) + 1,
                              bin_values := bin_values (h ! k) @ [val]\<rparr>]))"

definition histogram :: "jsnum list \<Rightarrow> nat \<Rightarrow> js_error + bin list" where
  "histogram data bins =
     (let mn = Math_min data;
          mx = Math_max data;
          binWidth = fl_div (fl_sub mx mn) (Fin (real bins))
      in histogram_fill mn binWidth bins data (empty_bins mn binWidth bins))"

section \<open>Date helpers\<close>

text \<open>
  A \<open>Date\<close> at day resolution is its three local calendar fields, named after the
  accessors that read them; \<open>getMonth\<close> counts from 0. The Julian Day Number is an integer,
  and \<open>Math.floor\<close> of a quotient of integers is flooring integer division.
\<close>

record js_date =
  getFullYear :: int
  getMonth :: int
  getDate :: int

definition dateToJulianDay :: "js_date \<Rightarrow> int" where
  "dateToJulianDay date =
     (let a = (14 - (getMonth date + 1)) div 12;
          y = getFullYear date + 4800 - a;
          m = (getMonth date + 1) + 12 * a - 3
      in getDate date + (153 * m + 2) div 5 + 365 * y + y div 4 - y div 100 + y div 400 - 32045)"

text \<open>
  \<open>new Date(year, monthIndex, day)\<close>: a year from 0 to 99 stands for 1900 + year, every
  other year is taken as given. The month index and the day are stored as passed; the
  constructor's carrying of an out-of-range month or day into the next unit is not
  modelled.
\<close>

definition new_Date :: "int \<Rightarrow> int \<Rightarrow> int \<Rightarrow> js_date" where
  "new_Date year monthIndex day =
     \<lparr>getFullYear = (if 0 \<le> year \<and> year \<le> 99 then 1900 + year else year),
      getMonth = monthIndex, getDate = day\<rparr>"

definition julianDayToDate :: "int \<Rightarrow> js_date" where
  "julianDayToDate jd =
     (let a = jd + 32044;
          b = (4 * a + 3) div 146097;
          c = a - (146097 * b) div 4;
          d = (4 * c + 3) div 1461;
          e = c - (1461 * d) div 4;
          m = (5 * e + 2) div 153;
          day = e - (153 * m + 2) div 5 + 1;
          month = m + 3 - 12 * (m div 10);
          year = 100 * b + d - 4800 + m div 10
      in new_Date year (month - 1) day)"

text \<open>Calendar validity of the three fields (proleptic Gregorian).\<close>

definition leap_year :: "int \<Rightarrow> bool" where
  "leap_year y = (y mod 4 = 0 \<and> (y mod 100 \<noteq> 0 \<or> y mod 400 = 0))"

definition days_in_month :: "int \<Rightarrow> int \<Rightarrow> int" where
  "days_in_month y monthIndex =
     (if monthIndex = 1 then (if leap_year y then 29 else 28)
      else if monthIndex \<in> {3, 5, 8, 10} then 30 else 31)"

definition valid_date :: "js_date \<Rightarrow> bool" where
  "valid_date d =
     (0 \<le> getMonth d \<and> getMonth d \<le> 11 \<and> 1 \<le> getDate d
      \<and> getDate d \<le> days_in_month (getFullYear d) (getMonth d))"

section \<open>FTRT calculator\<close>

record planet =
  mass :: jsnum
  semiMajorAxis :: jsnum
  period :: jsnum
  radius :: jsnum
  color :: string

definition GRAVITATIONAL_CONSTANT :: jsnum where
  "GRAVITATIONAL_CONSTANT = Fin (6674 / 10 ^ 14)"

definition SUN_RADIUS :: jsnum where
  "SUN_RADIUS = Fin (696 * 10 ^ 6)"

definition FTRT_REFERENCE_FORCE :: jsnum where
  "FTRT_REFERENCE_FORCE = Fin (10 ^ 15)"

text \<open>The table \<open>PLANETS\<close>, in the order of its keys.\<close>

definition PLANETS :: "(string \<times> planet) list" where
  "PLANETS =
     [(''mercury'', \<lparr>mass = Fin (3301 * 10 ^ 20), semiMajorAxis = Fin (5791 * 10 ^ 7),
         period = Fin (8797 / 100), radius = Fin (24397 * 10 ^ 2), color = ''#8C7853''\<rparr>),
      (''venus'', \<lparr>mass = Fin (4867 * 10 ^ 21), semiMajorAxis = Fin (1082 * 10 ^ 8),
         period = Fin (2247 / 10), radius = Fin (60518 * 10 ^ 2), color = ''#FFC649''\<rparr>),
      (''earth'', \<lparr>mass = Fin (5972 * 10 ^ 21), semiMajorAxis = Fin (1496 * 10 ^ 8),
         period = Fin (36525 / 100), radius = Fin (6371 * 10 ^ 3), color = ''#4A90E2''\<rparr>),
      (''mars'', \<lparr>mass = Fin (6417 * 10 ^ 20), semiMajorAxis = Fin (2279 * 10 ^ 8),
         period = Fin (68698 / 100), radius = Fin (33895 * 10 ^ 2), color = ''#E27B58''\<rparr>),
      (''jupiter'', \<lparr>mass = Fin (1898 * 10 ^ 24), semiMajorAxis = Fin (7785 * 10 ^ 8),
         period = Fin (433259 / 100), radius = Fin (69911 * 10 ^ 3), color = ''#C88B3A''\<rparr>),
      (''saturn'', \<lparr>mass = Fin (5683 * 10 ^ 23), semiMajorAxis = Fin (14335 * 10 ^ 8),
         period = Fin (1075922 / 100), radius = Fin (58232 * 10 ^ 3), color = ''#FAD5A5''\<rparr>),
      (''uranus'', \<lparr>mass = Fin (8681 * 10 ^ 22), semiMajorAxis = Fin (28725 * 10 ^ 8),
         period = Fin (306885 / 10), radius = Fin (25362 * 10 ^ 3), color = ''#4FD0E0''\<rparr>),
      (''neptune'', \<lparr>mass = Fin (1024 * 10 ^ 23), semiMajorAxis = Fin (44951 * 10 ^ 8),
         period = Fin 60182, radius = Fin (24622 * 10 ^ 3), color = ''#4B70DD''\<rparr>)]"

text \<open>An unknown planet name logs a warning and yields 0.\<close>

definition calculatePlanetaryTidalForce :: "string \<Rightarrow> jsnum \<Rightarrow> jsnum" where
  "calculatePlanetaryTidalForce planetName julianDay =
     (case map_of PLANETS planetName of
        None \<Rightarrow> Fin 0
      | Some planet \<Rightarrow>
          (let meanAnomaly = js_div (js_mul (js_mul (Fin 2) (Fin pi)) julianDay) (period planet);
               eccentricity = Fin (5 / 100);
               distance = js_mul (semiMajorAxis planet)
                            (js_add (Fin 1) (js_mul eccentricity (js_cos meanAnomaly)));
               tidalForce = js_div (js_mul (js_mul (js_mul (Fin 2) GRAVITATIONAL_CONSTANT)
                                      (mass planet)) SUN_RADIUS) (js_pow distance 3)
           in tidalForce))"

text \<open>
  The result of \<open>calculateFTRT\<close>. The object \<open>forces\<close> is the list of its entries in
  insertion order, which is the order \<open>Object.keys\<close> enumerates. The field \<open>date\<close> holds
  the date itself in place of its ISO string.
\<close>

record ftrt =
  date :: js_date
  julianDay :: jsnum
  totalForce :: jsnum
  normalizedIndex :: jsnum
  individualForces :: "(string \<times> jsnum) list"
  dominantPlanet :: string
  dominantForcePercentage :: jsnum

text \<open>Reading \<open>forces[name]\<close> for a comparison or a division: a missing entry acts as NaN.\<close>

definition force_of :: "(string \<times> jsnum) list \<Rightarrow> string \<Rightarrow> jsnum" where
  "force_of forces name = (case map_of forces name of Some f \<Rightarrow> f | None \<Rightarrow> NaN)"

fun forces_loop ::
  "jsnum \<Rightarrow> string list \<Rightarrow> (string \<times> jsnum) list \<times> jsnum \<Rightarrow> (string \<times> jsnum) list \<times> jsnum"
where
  "forces_loop jd [] acc = acc"
| "forces_loop jd (planetName # rest) (forces, total_force) =
     (let force = calculatePlanetaryTidalForce planetName jd
      in forces_loop jd rest (forces @ [(planetName, force)], js_add total_force force))"

text \<open>\<open>reduce\<close> without an initial value raises a \<open>TypeError\<close> on an empty array.\<close>

definition dominant_of :: "(string \<times> jsnum) list \<Rightarrow> js_error + string" where
  "dominant_of forces =
     (case map fst forces of
        [] \<Rightarrow> Inl TypeError
      | k # ks \<Rightarrow>
          Inr (foldl (\<lambda>mx planet.
                 if js_gt (force_of forces planet) (force_of forces mx) then planet else mx) k ks))"

definition calculateFTRT :: "js_date \<Rightarrow> js_error + ftrt" where
  "calculateFTRT d =
     (let jd = Fin (of_int (dateToJulianDay d))
      in case forces_loop jd (map fst PLANETS) ([], Fin 0) of
           (forces, total_force) \<Rightarrow>
             (case dominant_of forces of
                Inl e \<Rightarrow> Inl e
              | Inr dominant \<Rightarrow>
                  Inr \<lparr>date = d, julianDay = jd, totalForce = total_force,
                       normalizedIndex = js_min2 (js_div total_force FTRT_REFERENCE_FORCE) (Fin 1),
                       individualForces = forces,
                       dominantPlanet = dominant,
                       dominantForcePercentage =
                         js_mul (js_div (force_of forces dominant) total_force) (Fin 100)\<rparr>))"

text \<open>\<open>detectFTRTPeaks\<close>: the loop runs over \<open>1 \<le> i < length - 1\<close>.\<close>

record peak =
  peak_date :: js_date
  peak_julianDay :: jsnum
  index :: jsnum
  peak_dominantPlanet :: string
  peak_type :: string
  significance :: string

function peaks_loop :: "ftrt list \<Rightarrow> jsnum \<Rightarrow> nat \<Rightarrow> peak list \<Rightarrow> peak list" where
  "peaks_loop ftrtSeries threshold i peaks =
     (if int i < int (length ftrtSeries) - 1 then
        (let current = normalizedIndex (ftrtSeries ! i);
             previous = normalizedIndex (ftrtSeries ! (i - 1));
             next = normalizedIndex (ftrtSeries ! (i + 1))
         in if js_gt current threshold \<and> js_gt current previous \<and> js_gt current next
            then peaks_loop ftrtSeries threshold (i + 1)
                   (peaks @ [\<lparr>peak_date = date (ftrtSeries ! i),
                               peak_julianDay = julianDay (ftrtSeries ! i),
                               index = current,
                               peak_dominantPlanet = dominantPlanet (ftrtSeries ! i),
                               peak_type = ''ftrt_peak'',
                               significance =
                                 (if js_gt current (Fin (85 / 100)) then ''extreme''
                                  else if js_gt current (Fin (75 / 100)) then ''high''
                                  else ''moderate'')\<rparr>])
            else peaks_loop ftrtSeries threshold (i + 1) peaks)
      else peaks)"
  by pat_completeness auto
termination
  by (relation "measure (\<lambda>(ftrtSeries, threshold, i, peaks). length ftrtSeries - i)") auto

declare peaks_loop.simps [simp del]

definition detectFTRTPeaks :: "ftrt list \<Rightarrow> jsnum \<Rightarrow> peak list" where
  "detectFTRTPeaks ftrtSeries threshold = peaks_loop ftrtSeries threshold 1 []"

text \<open>
  The peak condition and the record built for a position, as the specification words
  them.
\<close>

definition is_peak :: "ftrt list \<Rightarrow> jsnum \<Rightarrow> nat \<Rightarrow> bool" where
  "is_peak s t i =
     (js_gt (normalizedIndex (s ! i)) (normalizedIndex (s ! (i - 1)))
      \<and> js_gt (normalizedIndex (s ! i)) (normalizedIndex (s ! (i + 1)))
      \<and> js_gt (normalizedIndex (s ! i)) t)"

definition band :: "jsnum \<Rightarrow> string" where
  "band v =
     (if js_gt v (Fin (85 / 100)) then ''extreme''
      else if js_gt v (Fin (75 / 100)) then ''high'' else ''moderate'')"

definition peak_at :: "ftrt list \<Rightarrow> nat \<Rightarrow> peak" where
  "peak_at s i =
     \<lparr>peak_date = date (s ! i), peak_julianDay = julianDay (s ! i),
      index = normalizedIndex (s ! i), peak_dominantPlanet = dominantPlanet (s ! i),
      peak_type = ''ftrt_peak'', significance = band (normalizedIndex (s ! i))\<rparr>"

section \<open>Facts about the number model\<close>

lemma js_sub_Fin [simp]: "js_sub (Fin a) (Fin b) = Fin (a - b)"
  by (simp add: js_sub_def)

lemma js_strict_eq_Fin [simp]: "js_strict_eq (Fin a) (Fin b) = (a = b)"
  by (simp add: js_strict_eq_def)

lemma foldl_js_add_Fin: "foldl js_add (Fin s) (map Fin xs) = Fin (s + sum_list xs)"
  by (induction xs arbitrary: s) (simp_all add: add.assoc)

section \<open>Facts about rounding\<close>

lemma round_even_of_int [simp]: "round_even (of_int j) = j"
  by (simp add: round_even_def)

lemma round_even_numeral [simp]: "round_even (numeral k) = numeral k"
  using round_even_of_int[of "numeral k"] by simp

lemma round_even_zero [simp]: "round_even 0 = 0"
  using round_even_of_int[of 0] by simp

lemma round_even_ge: "of_int j \<le> q \<Longrightarrow> j \<le> round_even q"
proof -
  assume "of_int j \<le> q"
  then have "j \<le> \<lfloor>q\<rfloor>" by (simp add: le_floor_iff)
  then show ?thesis by (auto simp: round_even_def Let_def)
qed

lemma round_even_le: "q \<le> of_int j \<Longrightarrow> round_even q \<le> j"
proof -
  assume h: "q \<le> of_int j"
  show ?thesis
  proof (cases "q = of_int j")
    case True then show ?thesis by simp
  next
    case False
    with h have "q < of_int j" by simp
    then have "\<lfloor>q\<rfloor> < j" by (simp add: floor_less_iff)
    then show ?thesis by (auto simp: round_even_def Let_def)
  qed
qed

lemma round_even_near: "\<bar>of_int (round_even q) - q\<bar> \<le> 1 / 2"
  unfolding round_even_def Let_def by (auto; linarith)

lemma floor_log2_eq:
  assumes "x \<noteq> 0" "2 powi e \<le> \<bar>x\<bar>" "\<bar>x\<bar> < 2 powi (e + 1)"
  shows "\<lfloor>log 2 \<bar>x\<bar>\<rfloor> = e"
proof -
  have "(2::real) powr real_of_int e = 2 powi e" "(2::real) powr (real_of_int e + 1) = 2 powi (e + 1)"
    using powr_real_of_int'[of 2 e] powr_real_of_int'[of 2 "e + 1"] by simp_all
  with assms show ?thesis
    by (subst floor_log_eq_powr_iff) simp_all
qed

lemma binade_eq:
  assumes "x \<noteq> 0" "2 powi e \<le> \<bar>x\<bar>" "\<bar>x\<bar> < 2 powi (e + 1)"
  shows "binade x = max e (- 1022)"
  using assms(1) by (simp add: binade_def floor_log2_eq[OF assms])

lemma fl_eval:
  assumes "2 powi e \<le> \<bar>x\<bar>" "\<bar>x\<bar> < 2 powi (e + 1)" "- 1022 \<le> e"
    and "round_even (x / 2 powi (e - 52)) = n"
    and "\<bar>of_int n * 2 powi (e - 52)\<bar> < (2::real) ^ 1024"
  shows "fl x = Fin (of_int n * 2 powi (e - 52))"
proof -
  have "0 < (2::real) powi e" by (rule zero_less_power_int) simp
  with assms(1) have "0 < \<bar>x\<bar>" by linarith
  then have "x \<noteq> 0" by simp
  from binade_eq[OF this assms(1,2)] assms(3) have "binade x = e" by simp
  with assms(4,5) show ?thesis by (simp add: fl_def Let_def)
qed

lemma binade_small:
  assumes "\<bar>x\<bar> < 2 powi (- 1022)"
  shows "binade x = - 1022"
proof (cases "x = 0")
  case True
  then show ?thesis by (simp add: binade_def)
next
  case False
  then have pos: "0 < \<bar>x\<bar>" by simp
  have "log 2 \<bar>x\<bar> < - 1022"
  proof -
    have "(2::real) powr (- 1022) = 2 powi (- 1022)"
      using powr_real_of_int'[of 2 "- 1022"] by simp
    with assms have "\<bar>x\<bar> < 2 powr (- 1022)" by simp
    then show ?thesis using pos by (simp add: log_less_iff)
  qed
  then have "\<lfloor>log 2 \<bar>x\<bar>\<rfloor> < - 1022" by (simp add: floor_less_iff)
  then show ?thesis by (simp add: binade_def)
qed

lemma fl_eval_subnormal:
  assumes "\<bar>x\<bar> < 2 powi (- 1022)" "round_even (x / 2 powi (- 1074)) = n"
  shows "fl x = Fin (of_int n * 2 powi (- 1074))"
proof -
  have near: "\<bar>of_int n - x / 2 powi (- 1074)\<bar> \<le> 1 / 2"
    using round_even_near[of "x / 2 powi (- 1074)"] assms(2) by simp
  have "\<bar>x / 2 powi (- 1074)\<bar> < 2 ^ 52"
  proof -
    have "\<bar>x / 2 powi (- 1074)\<bar> = \<bar>x\<bar> * 2 ^ 1074" by (simp add: power_int_minus field_simps)
    also have "\<dots> < 2 powi (- 1022) * 2 ^ 1074" using assms(1) by simp
    also have "\<dots> = 2 ^ 52" by (simp add: power_int_minus)
    finally show ?thesis .
  qed
  with near have "\<bar>real_of_int n\<bar> < 2 ^ 52 + 1" by linarith
  then have "\<bar>real_of_int n * 2 powi (- 1074)\<bar> < (2 ^ 52 + 1) * 2 powi (- 1074)"
    by (simp add: abs_mult)
  also have "\<dots> < (2::real) ^ 1024" by (simp add: power_int_minus)
  finally have "\<not> 2 ^ 1024 \<le> \<bar>real_of_int n * 2 powi (- 1074)\<bar>" by simp
  then show ?thesis
    using assms(2) by (simp add: fl_def Let_def binade_small[OF assms(1)])
qed

lemma fl_zero [simp]: "fl 0 = Fin 0"
  by (simp add: fl_def)

lemma fl_one [simp]: "fl 1 = Fin 1"
  using fl_eval[of 0 1 "2 ^ 52"] by simp


lemma two_powi_less_iff: "(2::real) powi m < 2 powi n \<longleftrightarrow> m < n"
proof
  assume "(2::real) powi m < 2 powi n"
  show "m < n"
  proof (rule ccontr)
    assume "\<not> m < n"
    then have "(2::real) powi n \<le> 2 powi m" by (intro power_int_increasing) simp_all
    with \<open>(2::real) powi m < 2 powi n\<close> show False by simp
  qed
next
  assume "m < n"
  then show "(2::real) powi m < 2 powi n" by (intro power_int_strict_increasing) simp_all
qed

lemma two_powi_le_iff: "(2::real) powi m \<le> 2 powi n \<longleftrightarrow> m \<le> n"
  using two_powi_less_iff[of n m] by (simp add: not_less[symmetric])

lemma binade_bounds:
  assumes "x \<noteq> 0"
  shows "2 powi \<lfloor>log 2 \<bar>x\<bar>\<rfloor> \<le> \<bar>x\<bar>" "\<bar>x\<bar> < 2 powi (\<lfloor>log 2 \<bar>x\<bar>\<rfloor> + 1)"
proof -
  define e where "e = \<lfloor>log 2 \<bar>x\<bar>\<rfloor>"
  have p: "(2::real) powr real_of_int e = 2 powi e" "(2::real) powr (real_of_int e + 1) = 2 powi (e + 1)"
    using powr_real_of_int'[of 2 e] powr_real_of_int'[of 2 "e + 1"] by simp_all
  have "2 powr real_of_int e \<le> \<bar>x\<bar> \<and> \<bar>x\<bar> < 2 powr (real_of_int e + 1)"
    using assms floor_log_eq_powr_iff[of "\<bar>x\<bar>" 2 e] by (simp add: e_def)
  then show "2 powi \<lfloor>log 2 \<bar>x\<bar>\<rfloor> \<le> \<bar>x\<bar>" "\<bar>x\<bar> < 2 powi (\<lfloor>log 2 \<bar>x\<bar>\<rfloor> + 1)"
    by (simp_all add: p e_def[symmetric])
qed

text \<open>In a normal binade the rounded significand keeps at least 52 bits.\<close>

lemma round_even_normal:
  assumes "2 powi e \<le> \<bar>x\<bar>"
  shows "2 ^ 52 \<le> \<bar>round_even (x / 2 powi (e - 52))\<bar>"
proof -
  have u: "0 < (2::real) powi (e - 52)" by (rule zero_less_power_int) simp
  have split: "(2::real) powi e = 2 ^ 52 * 2 powi (e - 52)"
    using power_int_add[of "2::real" 52 "e - 52"] by simp
  have mag: "2 ^ 52 \<le> \<bar>x\<bar> / 2 powi (e - 52)"
    using assms u by (simp add: split pos_le_divide_eq)
  show ?thesis
  proof (cases "0 \<le> x")
    case True
    with mag have "real_of_int (2 ^ 52) \<le> x / 2 powi (e - 52)" by simp
    from round_even_ge[OF this] show ?thesis by simp
  next
    case False
    with mag have "x / 2 powi (e - 52) \<le> real_of_int (- (2 ^ 52))" by simp
    from round_even_le[OF this] show ?thesis by simp
  qed
qed

lemma fl_overflow:
  assumes "2 ^ 1024 \<le> \<bar>x\<bar>"
  shows "fl x = (if 0 < x then PInf else NInf)"
proof -
  from assms have x0: "x \<noteq> 0" by auto
  define e where "e = \<lfloor>log 2 \<bar>x\<bar>\<rfloor>"
  note b = binade_bounds[OF x0, folded e_def]
  have p1024: "(2::real) ^ 1024 = 2 powi 1024" by simp
  from assms b(2) have "(2::real) ^ 1024 < 2 powi (e + 1)" by linarith
  then have "(2::real) powi 1024 < 2 powi (e + 1)" by (simp only: p1024)
  then have "1024 < e + 1" by (simp only: two_powi_less_iff)
  then have e: "1024 \<le> e" by simp
  then have bin: "binade x = e" using x0 by (simp add: binade_def e_def)
  define n where "n = round_even (x / 2 powi (e - 52))"
  have n: "2 ^ 52 \<le> \<bar>n\<bar>" unfolding n_def by (rule round_even_normal[OF b(1)])
  have u: "0 < (2::real) powi (e - 52)" by (rule zero_less_power_int) simp
  have "(2::real) powi 1024 \<le> 2 powi e" using e by (simp only: two_powi_le_iff)
  then have "(2::real) ^ 1024 \<le> 2 powi e" by (simp only: p1024)
  also have "(2::real) powi e = 2 ^ 52 * 2 powi (e - 52)"
    using power_int_add[of "2::real" 52 "e - 52"] by simp
  also have "\<dots> \<le> \<bar>real_of_int n\<bar> * 2 powi (e - 52)"
    using n u by (intro mult_right_mono) (simp_all add: of_int_abs[symmetric] del: of_int_abs)
  finally have "2 ^ 1024 \<le> \<bar>real_of_int n * 2 powi (e - 52)\<bar>"
    using u by (simp add: abs_mult)
  then show ?thesis by (simp add: fl_def Let_def bin n_def)
qed


lemma binade_ge: "- 1022 \<le> binade x"
  by (simp add: binade_def)

lemma fl_near:
  "\<bar>of_int (round_even (x / 2 powi (binade x - 52))) * 2 powi (binade x - 52) - x\<bar>
     \<le> 2 powi (binade x - 52) / 2"
proof -
  define u :: real where "u = 2 powi (binade x - 52)"
  have u: "0 < u" unfolding u_def by (rule zero_less_power_int) simp
  have "\<bar>of_int (round_even (x / u)) - x / u\<bar> \<le> 1 / 2" by (rule round_even_near)
  then have a: "\<bar>of_int (round_even (x / u)) - x / u\<bar> * u \<le> 1 / 2 * u"
    using u by (intro mult_right_mono) simp_all
  have "of_int (round_even (x / u)) * u - x = (of_int (round_even (x / u)) - x / u) * u"
    using u by (simp add: left_diff_distrib)
  then have "\<bar>of_int (round_even (x / u)) * u - x\<bar> = \<bar>of_int (round_even (x / u)) - x / u\<bar> * u"
    using u by (simp add: abs_mult)
  with a have "\<bar>of_int (round_even (x / u)) * u - x\<bar> \<le> u / 2" by linarith
  then show ?thesis by (simp only: u_def)
qed

lemma fl_finite:
  assumes "\<bar>x\<bar> \<le> 2 ^ 1023"
  shows "\<exists>r. fl x = Fin r"
proof (cases "x = 0")
  case True
  then show ?thesis by simp
next
  case False
  define e where "e = \<lfloor>log 2 \<bar>x\<bar>\<rfloor>"
  note b = binade_bounds[OF False, folded e_def]
  have p1023: "(2::real) ^ 1023 = 2 powi 1023" by simp
  from assms b(1) have "(2::real) powi e \<le> 2 ^ 1023" by linarith
  then have "(2::real) powi e \<le> 2 powi 1023" by (simp only: p1023)
  then have e: "e \<le> 1023" by (simp only: two_powi_le_iff)
  then have "binade x - 52 \<le> 971" using False by (simp add: binade_def e_def)
  then have "(2::real) powi (binade x - 52) \<le> 2 powi 971" by (simp only: two_powi_le_iff)
  also have "\<dots> = 2 ^ 971" by simp
  finally have u: "(2::real) powi (binade x - 52) \<le> 2 ^ 971" .
  define r :: real
    where "r = of_int (round_even (x / 2 powi (binade x - 52))) * 2 powi (binade x - 52)"
  have "\<bar>r - x\<bar> \<le> 2 powi (binade x - 52) / 2" unfolding r_def by (rule fl_near)
  with u assms have "\<bar>r\<bar> \<le> 2 ^ 1023 + 2 ^ 971 / 2" by linarith
  also have "\<dots> < (2::real) ^ 1024" by simp
  finally have "\<not> 2 ^ 1024 \<le> \<bar>r\<bar>" by simp
  then show ?thesis by (simp add: fl_def Let_def r_def)
qed

lemma fl_nonzero:
  assumes "2 powi (- 1074) \<le> \<bar>x\<bar>"
  shows "fl x \<noteq> Fin 0"
proof -
  have "0 < (2::real) powi (- 1074)" by (rule zero_less_power_int) simp
  with assms have "0 < \<bar>x\<bar>" by linarith
  then have x0: "x \<noteq> 0" by simp
  define e where "e = \<lfloor>log 2 \<bar>x\<bar>\<rfloor>"
  note b = binade_bounds[OF x0, folded e_def]
  define u :: real where "u = 2 powi (binade x - 52)"
  have u: "0 < u" unfolding u_def by (rule zero_less_power_int) simp
  define n where "n = round_even (x / u)"
  have "n \<noteq> 0"
  proof (cases "- 1022 \<le> e")
    case True
    then have "binade x = e" using x0 by (simp add: binade_def e_def)
    with round_even_normal[OF b(1)] have "2 ^ 52 \<le> \<bar>n\<bar>" by (simp add: n_def u_def)
    then show ?thesis by auto
  next
    case False
    then have bin: "binade x - 52 = - 1074" using x0 by (simp add: binade_def e_def)
    have "1 \<le> \<bar>x\<bar> / u" using assms u by (simp add: u_def bin pos_le_divide_eq)
    then show ?thesis
    proof (cases "0 \<le> x")
      case True
      with \<open>1 \<le> \<bar>x\<bar> / u\<close> have "real_of_int 1 \<le> x / u" by simp
      from round_even_ge[OF this] show ?thesis by (simp add: n_def)
    next
      case False
      with \<open>1 \<le> \<bar>x\<bar> / u\<close> have "x / u \<le> real_of_int (- 1)" by simp
      from round_even_le[OF this] show ?thesis by (simp add: n_def)
    qed
  qed
  then have "real_of_int n * u \<noteq> 0" using u by simp
  then show ?thesis by (simp add: fl_def Let_def n_def u_def)
qed

lemma is_double_multiple:
  assumes "is_double r"
  shows "\<exists>k::int. r = of_int k * 2 powi (- 1074)"
proof -
  define m where "m = nat (binade r + 1022)"
  have "binade r - 52 = int m + (- 1074)" using binade_ge[of r] by (simp add: m_def)
  moreover have "(2::real) powi (int m + (- 1074)) = 2 powi (int m) * 2 powi (- 1074)"
    by (rule power_int_add) simp
  ultimately have u: "(2::real) powi (binade r - 52) = 2 ^ m * 2 powi (- 1074)"
    by (simp only: power_int_of_nat)
  from assms have "r = of_int (round_even (r / 2 powi (binade r - 52))) * 2 powi (binade r - 52)"
    by (simp add: is_double_def fl_def Let_def split: if_splits)
  then have "r = of_int (round_even (r / 2 powi (binade r - 52)) * 2 ^ m) * 2 powi (- 1074)"
    by (simp only: u of_int_mult of_int_power of_int_numeral mult.assoc)
  then show ?thesis by blast
qed

lemma double_difference_nonzero:
  assumes "is_double a" "is_double b" "a \<noteq> b"
  shows "fl (a - b) \<noteq> Fin 0"
proof -
  from is_double_multiple[OF assms(1)] obtain k where k: "a = of_int k * 2 powi (- 1074)" by blast
  from is_double_multiple[OF assms(2)] obtain l where l: "b = of_int l * 2 powi (- 1074)" by blast
  have u: "0 < (2::real) powi (- 1074)" by (rule zero_less_power_int) simp
  have d: "a - b = of_int (k - l) * 2 powi (- 1074)" by (simp add: k l left_diff_distrib)
  from assms(3) k l have "k \<noteq> l" by auto
  then have "1 \<le> \<bar>real_of_int (k - l)\<bar>" by linarith
  then have "1 * 2 powi (- 1074) \<le> \<bar>real_of_int (k - l)\<bar> * 2 powi (- 1074)"
    using u by (intro mult_right_mono) simp_all
  then have "2 powi (- 1074) \<le> \<bar>a - b\<bar>" using u by (simp add: d abs_mult)
  then show ?thesis by (rule fl_nonzero)
qed

lemma fl_of_int:
  assumes "\<bar>k\<bar> < 2 ^ 53"
  shows "fl (of_int k) = Fin (of_int k)"
proof (cases "k = 0")
  case True
  then show ?thesis by simp
next
  case False
  define x :: real where "x = of_int k"
  have x0: "x \<noteq> 0" using False by (simp add: x_def)
  define e where "e = \<lfloor>log 2 \<bar>x\<bar>\<rfloor>"
  note b = binade_bounds[OF x0, folded e_def]
  have "1 \<le> \<bar>x\<bar>" using False by (simp add: x_def)
  with b(2) have "(2::real) powi 0 < 2 powi (e + 1)" by simp
  then have "0 < e + 1" by (simp only: two_powi_less_iff)
  then have e0: "0 \<le> e" by simp
  have "\<bar>x\<bar> < 2 ^ 53" using assms unfolding x_def
    by (metis of_int_abs of_int_less_numeral_power_cancel_iff)
  with b(1) have "(2::real) powi e < 2 powi 53" by simp
  then have e52: "e \<le> 52" by (simp only: two_powi_less_iff)
  define m where "m = nat (52 - e)"
  have "(2::real) powi (e - 52) * 2 powi (int m) = 2 powi (e - 52 + int m)"
    by (rule power_int_add[symmetric]) simp
  also have "e - 52 + int m = 0" using e52 by (simp add: m_def)
  finally have um: "(2::real) powi (e - 52) * 2 ^ m = 1" by simp
  have upos: "0 < (2::real) powi (e - 52)" by (rule zero_less_power_int) simp
  have q: "x / 2 powi (e - 52) = of_int (k * 2 ^ m)"
  proof -
    have "x / 2 powi (e - 52) = x * 2 ^ m / (2 powi (e - 52) * 2 ^ m)" using upos by simp
    then show ?thesis by (simp add: um x_def)
  qed
  have r: "real_of_int (k * 2 ^ m) * 2 powi (e - 52) = x"
  proof -
    have "real_of_int (k * 2 ^ m) * 2 powi (e - 52) = x * (2 powi (e - 52) * 2 ^ m)"
      by (simp add: x_def)
    then show ?thesis by (simp only: um mult_1_right)
  qed
  have "fl x = Fin (real_of_int (k * 2 ^ m) * 2 powi (e - 52))"
  proof (rule fl_eval)
    show "2 powi e \<le> \<bar>x\<bar>" by (rule b(1))
    show "\<bar>x\<bar> < 2 powi (e + 1)" by (rule b(2))
    show "- 1022 \<le> e" using e0 by simp
    show "round_even (x / 2 powi (e - 52)) = k * 2 ^ m" by (simp only: q round_even_of_int)
    have "\<bar>x\<bar> < 2 ^ 1024" using \<open>\<bar>x\<bar> < 2 ^ 53\<close> by simp
    then show "\<bar>real_of_int (k * 2 ^ m) * 2 powi (e - 52)\<bar> < 2 ^ 1024" by (simp only: r)
  qed
  then show ?thesis by (simp only: r) (simp add: x_def)
qed

lemma fl_numeral [simp]:
  "numeral w < (2::int) ^ 53 \<Longrightarrow> fl (numeral w) = Fin (numeral w)"
  using fl_of_int[of "numeral w"] by simp

lemma fl_neg_numeral [simp]:
  "numeral w < (2::int) ^ 53 \<Longrightarrow> fl (- numeral w) = Fin (- numeral w)"
  using fl_of_int[of "- numeral w"] by simp

lemma fl_minus_one [simp]: "fl (- 1) = Fin (- 1)"
  using fl_of_int[of "- 1"] by simp

section \<open>Sign, error and grid of a rounded number\<close>

lemma fl_cases:
  "fl x = Fin (of_int (round_even (x / 2 powi (binade x - 52))) * 2 powi (binade x - 52))
   \<or> fl x = PInf \<and> 0 < x \<or> fl x = NInf \<and> x < 0"
proof (cases "x = 0")
  case True
  then show ?thesis by (simp add: fl_def)
next
  case False
  then show ?thesis by (auto simp: fl_def Let_def)
qed

lemma binade_le:
  assumes "2 powi m \<le> \<bar>x\<bar>"
  shows "m \<le> binade x"
proof -
  have "0 < (2::real) powi m" by (rule zero_less_power_int) simp
  with assms have "0 < \<bar>x\<bar>" by linarith
  then have x0: "x \<noteq> 0" by simp
  note b = binade_bounds[OF x0]
  from assms b(2) have "(2::real) powi m < 2 powi (\<lfloor>log 2 \<bar>x\<bar>\<rfloor> + 1)" by linarith
  then have "m < \<lfloor>log 2 \<bar>x\<bar>\<rfloor> + 1" by (simp only: two_powi_less_iff)
  then show ?thesis using x0 by (simp add: binade_def)
qed

lemma fl_multiple:
  assumes "fl x = Fin r" "m \<le> binade x"
  shows "\<exists>k::int. r = of_int k * 2 powi (m - 52)"
proof -
  define j where "j = nat (binade x - m)"
  have "binade x - 52 = int j + (m - 52)" using assms(2) by (simp add: j_def)
  moreover have "(2::real) powi (int j + (m - 52)) = 2 powi (int j) * 2 powi (m - 52)"
    by (rule power_int_add) simp
  ultimately have u: "(2::real) powi (binade x - 52) = 2 ^ j * 2 powi (m - 52)"
    by (simp only: power_int_of_nat)
  from assms(1) have "r = of_int (round_even (x / 2 powi (binade x - 52))) * 2 powi (binade x - 52)"
    by (simp add: fl_def Let_def split: if_splits)
  then have "r = of_int (round_even (x / 2 powi (binade x - 52)) * 2 ^ j) * 2 powi (m - 52)"
    by (simp only: u of_int_mult of_int_power of_int_numeral mult.assoc)
  then show ?thesis by blast
qed

lemma fl_sign:
  assumes "fl x = Fin r"
  shows "x \<le> 0 \<Longrightarrow> r \<le> 0" "0 \<le> x \<Longrightarrow> 0 \<le> r"
proof -
  define u :: real where "u = 2 powi (binade x - 52)"
  have u: "0 < u" unfolding u_def by (rule zero_less_power_int) simp
  from assms have r: "r = of_int (round_even (x / u)) * u"
    by (simp add: fl_def Let_def u_def split: if_splits)
  show "r \<le> 0" if "x \<le> 0"
  proof -
    from that u have "x / u \<le> real_of_int 0" by (simp add: divide_le_0_iff)
    from round_even_le[OF this] have "round_even (x / u) \<le> 0" .
    then show ?thesis using u by (simp add: r mult_le_0_iff)
  qed
  show "0 \<le> r" if "0 \<le> x"
  proof -
    from that u have "real_of_int 0 \<le> x / u" by simp
    from round_even_ge[OF this] have "0 \<le> round_even (x / u)" .
    then show ?thesis using u by (simp add: r)
  qed
qed

lemma fl_rel_error:
  assumes "fl x = Fin r" "2 powi (- 1022) \<le> \<bar>x\<bar>"
  shows "\<bar>r - x\<bar> \<le> \<bar>x\<bar> * 2 powi (- 53)"
proof -
  have "0 < (2::real) powi (- 1022)" by (rule zero_less_power_int) simp
  with assms(2) have x0: "x \<noteq> 0" by auto
  note b = binade_bounds[OF x0]
  have "- 1022 \<le> \<lfloor>log 2 \<bar>x\<bar>\<rfloor>"
  proof -
    from assms(2) b(2) have "(2::real) powi (- 1022) < 2 powi (\<lfloor>log 2 \<bar>x\<bar>\<rfloor> + 1)" by linarith
    then have "- 1022 < \<lfloor>log 2 \<bar>x\<bar>\<rfloor> + 1" by (simp only: two_powi_less_iff)
    then show ?thesis by simp
  qed
  then have bin: "binade x = \<lfloor>log 2 \<bar>x\<bar>\<rfloor>" using x0 by (simp add: binade_def)
  have split: "(2::real) powi (binade x - 52) / 2 = 2 powi (binade x) * 2 powi (- 53)"
  proof -
    have "(2::real) powi (binade x + (- 53)) = 2 powi (binade x) * 2 powi (- 53)"
      by (rule power_int_add) simp
    moreover have "(2::real) powi (binade x + (- 53) + 1) = 2 powi (binade x + (- 53)) * 2 powi 1"
      by (rule power_int_add) simp
    moreover have "binade x + (- 53) + 1 = binade x - 52" by simp
    ultimately show ?thesis by simp
  qed
  have p53: "0 < (2::real) powi (- 53)" by (rule zero_less_power_int) simp
  from assms(1) have r: "r = of_int (round_even (x / 2 powi (binade x - 52))) * 2 powi (binade x - 52)"
    by (simp add: fl_def Let_def split: if_splits)
  have "\<bar>r - x\<bar> \<le> 2 powi (binade x - 52) / 2" unfolding r by (rule fl_near)
  also have "\<dots> = 2 powi (binade x) * 2 powi (- 53)" by (rule split)
  also have "\<dots> \<le> \<bar>x\<bar> * 2 powi (- 53)"
    using b(1) p53 unfolding bin by (intro mult_right_mono) simp_all
  finally show ?thesis .
qed

lemma round_even_pos: "1 / 2 < q \<Longrightarrow> 1 \<le> round_even q"
  using round_even_near[of q] by linarith

lemma round_even_neg: "q < - (1 / 2) \<Longrightarrow> round_even q \<le> - 1"
  using round_even_near[of q] by linarith

lemma fl_nonzero_tight:
  assumes "2 powi (- 1075) < \<bar>x\<bar>"
  shows "fl x \<noteq> Fin 0"
proof (cases "2 powi (- 1074) \<le> \<bar>x\<bar>")
  case True
  then show ?thesis by (rule fl_nonzero)
next
  case False
  have "(2::real) powi (- 1074) \<le> 2 powi (- 1022)" by (simp only: two_powi_le_iff)
  with False have small: "\<bar>x\<bar> < 2 powi (- 1022)" by linarith
  have u: "0 < (2::real) powi (- 1074)" by (rule zero_less_power_int) simp
  have half: "(2::real) powi (- 1075) = 2 powi (- 1074) / 2"
  proof -
    have "(2::real) powi (- 1075 + 1) = 2 powi (- 1075) * 2 powi 1"
      by (rule power_int_add) simp
    then show ?thesis by simp
  qed
  from assms have mag: "1 / 2 < \<bar>x\<bar> / 2 powi (- 1074)"
    using u by (simp add: half pos_less_divide_eq)
  define n where "n = round_even (x / 2 powi (- 1074))"
  have "n \<noteq> 0"
  proof (cases "0 \<le> x")
    case True
    with mag have "1 / 2 < x / 2 powi (- 1074)" by simp
    from round_even_pos[OF this] show ?thesis by (simp add: n_def)
  next
    case False
    with mag have "x / 2 powi (- 1074) < - (1 / 2)" by simp
    from round_even_neg[OF this] show ?thesis by (simp add: n_def)
  qed
  then have "real_of_int n * 2 powi (- 1074) \<noteq> 0" using u by simp
  moreover have "fl x = Fin (of_int n * 2 powi (- 1074))"
    by (rule fl_eval_subnormal[OF small]) (simp add: n_def)
  ultimately show ?thesis by simp
qed

section \<open>The rounded operations on finite numbers\<close>

lemma fl_add_Fin [simp]: "fl_add (Fin a) (Fin b) = fl (a + b)"
  by (simp add: fl_add_def)

lemma fl_sub_Fin [simp]: "fl_sub (Fin a) (Fin b) = fl (a - b)"
  by (simp add: fl_sub_def)

lemma fl_mul_Fin [simp]: "fl_mul (Fin a) (Fin b) = fl (a * b)"
  by (simp add: fl_mul_def)

lemma fl_div_Fin [simp]: "b \<noteq> 0 \<Longrightarrow> fl_div (Fin a) (Fin b) = fl (a / b)"
  by (simp add: fl_div_def)

lemma fl_div_zero_zero [simp]: "fl_div (Fin 0) (Fin 0) = NaN"
  by (simp add: fl_div_def)

lemma fl_sqrt_Fin [simp]: "0 \<le> a \<Longrightarrow> fl_sqrt (Fin a) = fl (sqrt a)"
  by (simp add: fl_sqrt_def)

lemma fl_pow_Fin [simp]: "fl_pow (Fin a) n = fl (a ^ n)"
  by (simp add: fl_pow_def)

lemma fl_add_NaN [simp]: "fl_add a NaN = NaN" "fl_add NaN a = NaN"
  by (cases a; simp add: fl_add_def)+

lemma fl_mul_NaN [simp]: "fl_mul a NaN = NaN" "fl_mul NaN a = NaN"
  by (cases a; simp add: fl_mul_def)+

lemma fl_div_NaN [simp]: "fl_div a NaN = NaN" "fl_div NaN a = NaN"
  by (cases a; simp add: fl_div_def)+

section \<open>Minimum and maximum of an array\<close>

lemma foldl_js_min2_Fin: "foldl js_min2 (Fin a) (map Fin xs) = Fin (foldl min a xs)"
  by (induction xs arbitrary: a) (auto simp: js_min2_def min_def)

lemma foldl_js_max2_Fin: "foldl js_max2 (Fin a) (map Fin xs) = Fin (foldl max a xs)"
  by (induction xs arbitrary: a) (auto simp: js_max2_def max_def)

lemma foldl_min_Min: "foldl min a xs = Min (set (a # xs))" for a :: real
proof -
  have "(\<lambda>x s. min s x) = (min :: real \<Rightarrow> real \<Rightarrow> real)"
    by (intro ext) (rule min.commute)
  then show ?thesis by (simp only: Min.set_eq_fold foldl_conv_fold)
qed

lemma foldl_max_Max: "foldl max a xs = Max (set (a # xs))" for a :: real
proof -
  have "(\<lambda>x s. max s x) = (max :: real \<Rightarrow> real \<Rightarrow> real)"
    by (intro ext) (rule max.commute)
  then show ?thesis by (simp only: Max.set_eq_fold foldl_conv_fold)
qed

lemma Math_min_Fin: "xs \<noteq> [] \<Longrightarrow> Math_min (map Fin xs) = Fin (Min (set xs))"
  by (cases xs) (simp_all add: Math_min_def js_min2_def foldl_js_min2_Fin foldl_min_Min)

lemma Math_max_Fin: "xs \<noteq> [] \<Longrightarrow> Math_max (map Fin xs) = Fin (Max (set xs))"
  by (cases xs) (simp_all add: Math_max_def js_max2_def foldl_js_max2_Fin foldl_max_Max)

lemma constant_Min_Max:
  assumes "constant_array xs" "xs \<noteq> []"
  shows "Max (set xs) = Min (set (xs::real list))"
proof -
  have "set xs = {hd xs}" using assms by (auto simp: constant_array_def)
  then show ?thesis by simp
qed

section \<open>The square root of a rounded square\<close>

text \<open>
  A positive normal double is \<open>m * 2 powi (e - 52)\<close> with \<open>2 ^ 52 \<le> m < 2 ^ 53\<close>. When the
  square of such a double \<open>d\<close> neither overflows nor falls into the subnormal range, the
  correctly rounded square root of the rounded square is \<open>d\<close> again: the rounding error of
  the square is at most \<open>d * d * 2 powi - 53\<close>, which keeps the root within half a unit
  in the last place of \<open>d\<close>.
\<close>

lemma round_even_unique:
  assumes "\<bar>q - of_int m\<bar> < 1 / 2"
  shows "round_even q = m"
proof -
  have "\<bar>real_of_int (round_even q) - q\<bar> \<le> 1 / 2" by (rule round_even_near)
  with assms have "\<bar>real_of_int (round_even q) - real_of_int m\<bar> < 1" by linarith
  then have "\<bar>real_of_int (round_even q - m)\<bar> < 1" by simp
  then have "\<bar>round_even q - m\<bar> < 1" by linarith
  then show ?thesis by simp
qed

lemma binade_normal:
  assumes "2 powi (- 1022) \<le> \<bar>x\<bar>"
  shows "binade x = \<lfloor>log 2 \<bar>x\<bar>\<rfloor>" "2 powi (binade x) \<le> \<bar>x\<bar>" "\<bar>x\<bar> < 2 powi (binade x + 1)"
proof -
  have "0 < (2::real) powi (- 1022)" by (rule zero_less_power_int) simp
  with assms have "0 < \<bar>x\<bar>" by linarith
  then have x0: "x \<noteq> 0" by simp
  note b = binade_bounds[OF x0]
  from assms b(2) have "(2::real) powi (- 1022) < 2 powi (\<lfloor>log 2 \<bar>x\<bar>\<rfloor> + 1)" by linarith
  then have "- 1022 < \<lfloor>log 2 \<bar>x\<bar>\<rfloor> + 1" by (simp only: two_powi_less_iff)
  then show bin: "binade x = \<lfloor>log 2 \<bar>x\<bar>\<rfloor>" using x0 by (simp add: binade_def)
  show "2 powi (binade x) \<le> \<bar>x\<bar>" unfolding bin by (rule b(1))
  show "\<bar>x\<bar> < 2 powi (binade x + 1)" unfolding bin by (rule b(2))
qed

lemma two_powi_split: "(2::real) powi e = 2 ^ 52 * 2 powi (e - 52)"
  using power_int_add[of "2::real" 52 "e - 52"] by simp

lemma two_powi_split_succ: "(2::real) powi (e + 1) = 2 ^ 53 * 2 powi (e - 52)"
proof -
  have a: "(2::real) powi (53 + (e - 52)) = 2 powi 53 * 2 powi (e - 52)"
    by (rule power_int_add) simp
  have b: "53 + (e - 52) = e + 1" by simp
  have c: "(2::real) powi 53 = 2 ^ 53" by simp
  show ?thesis using a unfolding b c .
qed

lemma fl_lower_pow2:
  assumes "fl x = Fin s" "2 powi k \<le> x" "- 1022 \<le> k"
  shows "2 powi k \<le> s"
proof -
  have kpos: "0 < (2::real) powi k" by (rule zero_less_power_int) simp
  with assms(2) have xpos: "0 < x" by linarith
  have "(2::real) powi (- 1022) \<le> 2 powi k" using assms(3) by (simp only: two_powi_le_iff)
  with assms(2) xpos have norm: "2 powi (- 1022) \<le> \<bar>x\<bar>" by simp
  note b = binade_normal[OF norm]
  define u :: real where "u = 2 powi (binade x - 52)"
  have u: "0 < u" unfolding u_def by (rule zero_less_power_int) simp
  define n where "n = round_even (x / u)"
  from assms(1) have s: "s = of_int n * u"
    by (simp add: fl_def Let_def n_def u_def split: if_splits)
  have "2 ^ 52 \<le> \<bar>n\<bar>" unfolding n_def u_def by (rule round_even_normal[OF b(2)])
  moreover have "0 \<le> n"
  proof -
    from xpos u have "real_of_int 0 \<le> x / u" by simp
    from round_even_ge[OF this] show ?thesis by (simp add: n_def)
  qed
  ultimately have "2 ^ 52 \<le> n" by simp
  then have "(2::real) ^ 52 \<le> real_of_int n" by simp
  then have "2 ^ 52 * u \<le> real_of_int n * u" using u by (intro mult_right_mono) simp_all
  then have "2 powi (binade x) \<le> s" by (simp only: s two_powi_split[of "binade x"] u_def)
  moreover have "k \<le> binade x"
  proof -
    from assms(2) xpos have "2 powi k \<le> \<bar>x\<bar>" by simp
    then show ?thesis by (rule binade_le)
  qed
  then have "(2::real) powi k \<le> 2 powi (binade x)" by (simp only: two_powi_le_iff)
  ultimately show ?thesis by linarith
qed

lemma fl_normal_form:
  assumes "fl y = Fin d" "2 powi (- 1022) \<le> d"
  shows "\<exists>e m. d = of_int m * 2 powi (e - 52) \<and> 2 ^ 52 \<le> m \<and> m < 2 ^ 53 \<and> - 1022 \<le> e"
proof -
  have lo: "0 < (2::real) powi (- 1022)" by (rule zero_less_power_int) simp
  with assms(2) have dpos: "0 < d" by linarith
  have ypos: "0 < y"
  proof (rule ccontr)
    assume "\<not> 0 < y"
    then have "y \<le> 0" by simp
    from fl_sign(1)[OF assms(1) this] dpos show False by simp
  qed
  define E where "E = binade y"
  define u :: real where "u = 2 powi (E - 52)"
  have u: "0 < u" unfolding u_def by (rule zero_less_power_int) simp
  define n where "n = round_even (y / u)"
  from assms(1) have d: "d = of_int n * u"
    by (simp add: fl_def Let_def n_def u_def E_def split: if_splits)
  have E: "- 1022 \<le> E" unfolding E_def by (rule binade_ge)
  have upper: "y < 2 powi (E + 1)"
  proof -
    have y0: "y \<noteq> 0" using ypos by simp
    from binade_bounds(2)[OF y0] ypos have "y < 2 powi (\<lfloor>log 2 \<bar>y\<bar>\<rfloor> + 1)" by simp
    moreover have "\<lfloor>log 2 \<bar>y\<bar>\<rfloor> + 1 \<le> E + 1" using y0 by (simp add: E_def binade_def)
    then have "(2::real) powi (\<lfloor>log 2 \<bar>y\<bar>\<rfloor> + 1) \<le> 2 powi (E + 1)"
      by (simp only: two_powi_le_iff)
    ultimately show ?thesis by linarith
  qed
  have n_le: "n \<le> 2 ^ 53"
  proof -
    from upper have "y < 2 ^ 53 * u" by (simp only: two_powi_split_succ[of E] u_def)
    then have "y / u \<le> real_of_int (2 ^ 53)" using u by (simp add: pos_divide_le_eq)
    from round_even_le[OF this] show ?thesis by (simp add: n_def)
  qed
  have n_ge: "2 ^ 52 \<le> n"
  proof (cases "2 powi E \<le> \<bar>y\<bar>")
    case True
    from round_even_normal[OF True] have "2 ^ 52 \<le> \<bar>n\<bar>" by (simp add: n_def u_def)
    moreover have "0 \<le> n"
    proof -
      from ypos u have "real_of_int 0 \<le> y / u" by simp
      from round_even_ge[OF this] show ?thesis by (simp add: n_def)
    qed
    ultimately show ?thesis by simp
  next
    case False
    have y0: "y \<noteq> 0" using ypos by simp
    from False binade_bounds(1)[OF y0] have "E \<noteq> \<lfloor>log 2 \<bar>y\<bar>\<rfloor>" by auto
    then have E1022: "E = - 1022" using y0 by (simp add: E_def binade_def max_def split: if_splits)
    have "(2::real) powi (- 1022) = 2 ^ 52 * u" unfolding u_def E1022 by (rule two_powi_split)
    with assms(2) have "2 ^ 52 * u \<le> real_of_int n * u" by (simp only: d)
    then have "(2::real) ^ 52 \<le> real_of_int n" using u by simp
    then show ?thesis by simp
  qed
  show ?thesis
  proof (cases "n < 2 ^ 53")
    case True
    with d n_ge E show ?thesis unfolding u_def by blast
  next
    case False
    with n_le have n: "n = 2 ^ 53" by simp
    have "d = 2 ^ 53 * u" by (simp add: d n)
    also have "\<dots> = 2 powi (E + 1)" by (simp only: two_powi_split_succ[of E] u_def)
    also have "\<dots> = 2 ^ 52 * 2 powi (E + 1 - 52)" by (rule two_powi_split)
    finally have "d = real_of_int (2 ^ 52) * 2 powi (E + 1 - 52)" by simp
    moreover have "(2::int) ^ 52 \<le> 2 ^ 52" "(2::int) ^ 52 < 2 ^ 53" "- 1022 \<le> E + 1"
      using E by simp_all
    ultimately show ?thesis by blast
  qed
qed

lemma sqrt_square_rounds_back:
  assumes d: "d = of_int m * 2 powi (e - 52)" and m: "2 ^ 52 \<le> m" "m < 2 ^ 53"
    and e: "- 511 \<le> e" and s: "fl (d * d) = Fin s" and small: "d < 2 ^ 1024"
  shows "fl (sqrt s) = Fin d"
proof -
  define u :: real where "u = 2 powi (e - 52)"
  define a :: real where "a = of_int m"
  define w :: real where "w = u * u"
  have u: "0 < u" unfolding u_def by (rule zero_less_power_int) simp
  have w: "0 < w" unfolding w_def using u by simp
  have dau: "d = a * u" by (simp add: d a_def u_def)
  have a_lo: "2 ^ 52 \<le> a" using m(1) by (simp add: a_def)
  have "m \<le> 2 ^ 53 - 1" using m(2) by simp
  then have "a \<le> real_of_int (2 ^ 53 - 1)" unfolding a_def by (simp only: of_int_le_iff)
  then have a_hi: "a \<le> 2 ^ 53 - 1" by simp
  have pe: "(2::real) powi e = 2 ^ 52 * u" unfolding u_def by (rule two_powi_split)
  have pe1: "(2::real) powi (e + 1) = 2 ^ 53 * u" unfolding u_def by (rule two_powi_split_succ)
  have pe_pos: "0 < (2::real) powi e" by (rule zero_less_power_int) simp
  have d_lo: "2 powi e \<le> d" unfolding pe dau using a_lo u by (intro mult_right_mono) simp_all
  have d_hi: "d \<le> (2 ^ 53 - 1) * u" unfolding dau using a_hi u by (intro mult_right_mono) simp_all
  have dpos: "0 < d" using d_lo pe_pos by linarith
  have sq_e: "(2::real) powi (2 * e) = 2 powi e * 2 powi e"
  proof -
    have "(2::real) powi (e + e) = 2 powi e * 2 powi e" by (rule power_int_add) simp
    moreover have "e + e = 2 * e" by simp
    ultimately show ?thesis by (simp only:)
  qed
  have x_lo: "2 powi (2 * e) \<le> d * d"
    unfolding sq_e using d_lo pe_pos dpos by (intro mult_mono) simp_all
  have e2: "- 1022 \<le> 2 * e" using e by simp
  then have "(2::real) powi (- 1022) \<le> 2 powi (2 * e)" by (simp only: two_powi_le_iff)
  with x_lo have norm: "2 powi (- 1022) \<le> \<bar>d * d\<bar>" by simp
  have c: "(2::real) powi (- 53) = 1 / 9007199254740992" by (simp add: power_int_minus)
  have "\<bar>d * d\<bar> = d * d" by simp
  with fl_rel_error[OF s norm] have rel: "\<bar>s - d * d\<bar> \<le> d * d * (1 / 9007199254740992)"
    by (simp only: c)
  have key: "a * a * (1 / 9007199254740992) \<le> a - 1 / 2"
  proof -
    define k :: real where "k = 1 / 9007199254740992"
    have "a * k \<le> 1 - k" using a_hi by (simp add: k_def)
    moreover have "0 \<le> a" using a_lo by simp
    ultimately have "a * (a * k) \<le> a * (1 - k)" by (rule mult_left_mono)
    moreover have "1 / 2 \<le> a * k" using a_lo by (simp add: k_def)
    moreover have "a * (1 - k) = a - a * k" by (simp add: algebra_simps)
    moreover have "a * (a * k) = a * a * k" by simp
    ultimately have "a * a * k \<le> a - 1 / 2" by linarith
    then show ?thesis by (simp only: k_def)
  qed
  have xw: "d * d = a * a * w" by (simp add: dau w_def)
  have "d * d * (1 / 9007199254740992) = a * a * (1 / 9007199254740992) * w" by (simp add: xw)
  also have "\<dots> \<le> (a - 1 / 2) * w" using key w by (intro mult_right_mono) simp_all
  finally have err: "\<bar>s - a * a * w\<bar> \<le> (a - 1 / 2) * w" using rel by (simp only: xw)
  have lo_sq: "(d - u / 2)\<^sup>2 = a * a * w - a * w + w / 4"
    by (simp add: dau w_def power2_eq_square algebra_simps)
  have hi_sq: "(d + u / 2)\<^sup>2 = a * a * w + a * w + w / 4"
    by (simp add: dau w_def power2_eq_square algebra_simps)
  have aw: "(a - 1 / 2) * w = a * w - w / 2" by (simp add: algebra_simps)
  from err w have "(d - u / 2)\<^sup>2 < s" unfolding lo_sq aw by linarith
  then have sqrt_lo: "d - u / 2 < sqrt s" by (rule real_less_rsqrt)
  have "0 \<le> d + u / 2" using dpos u by simp
  moreover from err w have "s < (d + u / 2)\<^sup>2" unfolding hi_sq aw by linarith
  ultimately have sqrt_hi: "sqrt s < d + u / 2" by (rule real_less_lsqrt)
  have s_lo: "2 powi (2 * e) \<le> s" by (rule fl_lower_pow2[OF s x_lo e2])
  have "(2 powi e)\<^sup>2 \<le> s" using s_lo by (simp only: sq_e power2_eq_square)
  then have sqrt_ge: "2 powi e \<le> sqrt s" by (rule real_le_rsqrt)
  have sqrt_pos: "0 \<le> sqrt s" using sqrt_ge pe_pos by linarith
  have "fl (sqrt s) = Fin (of_int m * 2 powi (e - 52))"
  proof (rule fl_eval)
    show "2 powi e \<le> \<bar>sqrt s\<bar>" using sqrt_ge sqrt_pos by simp
    have "sqrt s < 2 ^ 53 * u" using sqrt_hi d_hi u by (simp add: algebra_simps)
    then show "\<bar>sqrt s\<bar> < 2 powi (e + 1)" using sqrt_pos by (simp only: pe1 abs_of_nonneg)
    show "- 1022 \<le> e" using e by simp
    show "round_even (sqrt s / 2 powi (e - 52)) = m"
    proof (rule round_even_unique)
      have "sqrt s / u - a = (sqrt s - d) / u" using u by (simp add: dau field_simps)
      moreover have "\<bar>sqrt s - d\<bar> < u / 2" using sqrt_lo sqrt_hi by linarith
      then have "\<bar>sqrt s - d\<bar> / u < 1 / 2" using u by (simp add: pos_divide_less_eq)
      ultimately show "\<bar>sqrt s / 2 powi (e - 52) - real_of_int m\<bar> < 1 / 2"
        using u by (simp add: u_def[symmetric] a_def[symmetric])
    qed
    show "\<bar>real_of_int m * 2 powi (e - 52)\<bar> < 2 ^ 1024"
      using small dpos by (simp only: d[symmetric] abs_of_pos)
  qed
  then show ?thesis by (simp only: d[symmetric])
qed

section \<open>Pearson correlation\<close>

text \<open>
  When every element of an array equals the mean that \<open>mean\<close> computed for it, every
  deviation is 0 and the array's sum of squared deviations stays 0.
\<close>

lemma pearson_loop_zero_y:
  "length x = length y \<Longrightarrow> \<forall>v \<in> set y. v = Fin c \<Longrightarrow>
   snd (snd (pearson_loop mx (Fin c) x y (a, b, Fin 0))) = Fin 0"
  by (induction x y arbitrary: a b rule: list_induct2) (simp_all add: Let_def)

lemma pearson_loop_zero_x:
  "length x = length y \<Longrightarrow> \<forall>v \<in> set x. v = Fin c \<Longrightarrow>
   fst (snd (pearson_loop (Fin c) my x y (a, Fin 0, b))) = Fin 0"
  by (induction x y arbitrary: a b rule: list_induct2) (simp_all add: Let_def)

subsection \<open>The constant array of the double nearest to 0.1\<close>

text \<open>
  The double nearest to 0.1 is \<open>3602879701896397 / 2 ^ 55\<close>. Three of them add up to
  \<open>1351079888211149 / 2 ^ 52\<close>, and a third of that rounds to \<open>7205759403792795 / 2 ^ 56\<close>,
  which is the next double above: the computed mean differs from the element by \<open>2 powi - 56\<close>.
  The roundings met on the way are checked one by one.
\<close>

lemma tenth_1: "fl (3602879701896397 / 36028797018963968) = Fin (3602879701896397 / 36028797018963968)"
  using fl_eval[of "- 4" "3602879701896397 / 36028797018963968" "7205759403792794"]
  by (simp add: round_even_def power_int_minus)
lemma tenth_2: "fl (3602879701896397 / 18014398509481984) = Fin (3602879701896397 / 18014398509481984)"
  using fl_eval[of "- 3" "3602879701896397 / 18014398509481984" "7205759403792794"]
  by (simp add: round_even_def power_int_minus)
lemma tenth_3: "fl (10808639105689191 / 36028797018963968) = Fin (1351079888211149 / 4503599627370496)"
  using fl_eval[of "- 2" "10808639105689191 / 36028797018963968" "5404319552844596"]
  by (simp add: round_even_def power_int_minus)
lemma tenth_4: "fl (1351079888211149 / 13510798882111488) = Fin (7205759403792795 / 72057594037927936)"
  using fl_eval[of "- 4" "1351079888211149 / 13510798882111488" "7205759403792795"]
  by (simp add: round_even_def power_int_minus)
lemma tenth_5: "fl (- (1 / 72057594037927936)) = Fin (- (1 / 72057594037927936))"
  using fl_eval[of "- 56" "- (1 / 72057594037927936)" "- 4503599627370496"]
  by (simp add: round_even_def power_int_minus)
lemma tenth_6: "fl (1 / 5192296858534827628530496329220096) = Fin (1 / 5192296858534827628530496329220096)"
  using fl_eval[of "- 112" "1 / 5192296858534827628530496329220096" "4503599627370496"]
  by (simp add: round_even_def power_int_minus)
lemma tenth_7: "fl (1 / 2596148429267413814265248164610048) = Fin (1 / 2596148429267413814265248164610048)"
  using fl_eval[of "- 111" "1 / 2596148429267413814265248164610048" "4503599627370496"]
  by (simp add: round_even_def power_int_minus)
lemma tenth_8: "fl (3 / 5192296858534827628530496329220096) = Fin (3 / 5192296858534827628530496329220096)"
  using fl_eval[of "- 111" "3 / 5192296858534827628530496329220096" "6755399441055744"]
  by (simp add: round_even_def power_int_minus)
lemma tenth_9: "fl (9 / 26959946667150639794667015087019630673637144422540572481103610249216) = Fin (9 / 26959946667150639794667015087019630673637144422540572481103610249216)"
  using fl_eval[of "- 221" "9 / 26959946667150639794667015087019630673637144422540572481103610249216" "5066549580791808"]
  by (simp add: round_even_def power_int_minus)

lemma sqrt_tenth: "sqrt (9 / 26959946667150639794667015087019630673637144422540572481103610249216) = 3 / 5192296858534827628530496329220096"
  by (rule real_sqrt_unique) (simp_all add: power2_eq_square)




subsection \<open>The correlation of an array with itself\<close>

text \<open>
  On two copies of one array the three accumulators of the loop stay equal, and their
  common final value is a rounded number.
\<close>

lemma pearson_loop_self:
  "(\<forall>r. a = Fin r \<longrightarrow> (\<exists>t. fl t = Fin r)) \<Longrightarrow>
   \<exists>d. pearson_loop m m x x (a, a, a) = (d, d, d) \<and> (\<forall>r. d = Fin r \<longrightarrow> (\<exists>t. fl t = Fin r))"
proof (induction x arbitrary: a)
  case Nil
  then show ?case by simp
next
  case (Cons v x)
  define a' where "a' = fl_add a (fl_mul (fl_sub v m) (fl_sub v m))"
  have "\<forall>r. a' = Fin r \<longrightarrow> (\<exists>t. fl t = Fin r)"
  proof (intro allI impI)
    fix r assume r: "a' = Fin r"
    then obtain t where "js_add a (fl_mul (fl_sub v m) (fl_sub v m)) = Fin t"
      unfolding a'_def fl_add_def by (cases "js_add a (fl_mul (fl_sub v m) (fl_sub v m))") auto
    with r have "fl t = Fin r" by (simp add: a'_def fl_add_def)
    then show "\<exists>t. fl t = Fin r" ..
  qed
  from Cons.IH[OF this] show ?case by (simp add: Let_def a'_def)
qed

lemma pearson_self_one:
  assumes "final_denomX x x = Fin d" "2 powi (- 511) \<le> d" "d < 2 powi 511"
  shows "pearsonCorrelation x x = Inr (Fin 1)"
proof -
  have lo: "0 < (2::real) powi (- 511)" by (rule zero_less_power_int) simp
  with assms(2) have dpos: "0 < d" by linarith
  have "(\<forall>r. Fin 0 = Fin r \<longrightarrow> (\<exists>t. fl t = Fin r))" using fl_zero by blast
  from pearson_loop_self[OF this, of "corr_mean x" x] obtain D where
    loop: "pearson_loop (corr_mean x) (corr_mean x) x x (Fin 0, Fin 0, Fin 0) = (D, D, D)"
    and rounded: "\<forall>r. D = Fin r \<longrightarrow> (\<exists>t. fl t = Fin r)" by blast
  from assms(1) loop have D: "D = Fin d" by (simp add: final_denomX_def)
  have ne: "x \<noteq> []"
  proof
    assume "x = []"
    with assms(1) dpos show False by (simp add: final_denomX_def)
  qed
  from rounded D obtain t where t: "fl t = Fin d" by blast
  have "(2::real) powi (- 1022) \<le> 2 powi (- 511)" by (simp only: two_powi_le_iff)
  with assms(2) have "2 powi (- 1022) \<le> d" by linarith
  from fl_normal_form[OF t this] obtain e m where
    nf: "d = of_int m * 2 powi (e - 52)" "2 ^ 52 \<le> m" "m < 2 ^ 53" "- 1022 \<le> e" by blast
  have e: "- 511 \<le> e"
  proof -
    have u: "0 < (2::real) powi (e - 52)" by (rule zero_less_power_int) simp
    have "real_of_int m < 2 ^ 53" using nf(3) by simp
    then have "real_of_int m * 2 powi (e - 52) < 2 ^ 53 * 2 powi (e - 52)"
      using u by (intro mult_strict_right_mono) simp_all
    then have "d < 2 powi (e + 1)" by (simp only: nf(1)[symmetric] two_powi_split_succ)
    with assms(2) have "(2::real) powi (- 511) < 2 powi (e + 1)" by linarith
    then have "- 511 < e + 1" by (simp only: two_powi_less_iff)
    then show ?thesis by simp
  qed
  have p511: "(2::real) powi 511 = 2 ^ 511" by simp
  have d511: "d < 2 ^ 511" using assms(3) by (simp only: p511)
  have "d * d \<le> 2 ^ 511 * 2 ^ 511" using d511 dpos by (intro mult_mono) simp_all
  also have "\<dots> \<le> (2::real) ^ 1023" by simp
  finally have "\<bar>d * d\<bar> \<le> 2 ^ 1023" by simp
  from fl_finite[OF this] obtain s where s: "fl (d * d) = Fin s" by blast
  have s0: "0 \<le> s" by (rule fl_sign(2)[OF s]) simp
  have "(2::real) ^ 511 \<le> 2 ^ 1024" by simp
  with d511 have small: "d < 2 ^ 1024" by linarith
  have root: "fl (sqrt s) = Fin d"
    by (rule sqrt_square_rounds_back[OF nf(1) nf(2) nf(3) e s small])
  show ?thesis
    using ne dpos s0
    by (simp add: pearsonCorrelation_def loop D s root)
qed

text \<open>
  The roundings met by \<open>pearsonCorrelation\<close> on the constant arrays of the doubles nearest
  to 0.1 and to 0.2, and on the array \<open>[0, 2 ^ 257]\<close> against itself, where the product
  \<open>denomX * denomY\<close> is \<open>2 ^ 1026\<close> and overflows.
\<close>

lemma fifth_1: "fl (3602879701896397 / 9007199254740992) = Fin (3602879701896397 / 9007199254740992)"
  using fl_eval[of "- 2" "3602879701896397 / 9007199254740992" "7205759403792794"]
  by (simp add: round_even_def power_int_minus)
lemma fifth_2: "fl (10808639105689191 / 18014398509481984) = Fin (1351079888211149 / 2251799813685248)"
  using fl_eval[of "- 1" "10808639105689191 / 18014398509481984" "5404319552844596"]
  by (simp add: round_even_def power_int_minus)
lemma fifth_3: "fl (1351079888211149 / 6755399441055744) = Fin (7205759403792795 / 36028797018963968)"
  using fl_eval[of "- 3" "1351079888211149 / 6755399441055744" "7205759403792795"]
  by (simp add: round_even_def power_int_minus)
lemma fifth_4: "fl (- (1 / 36028797018963968)) = Fin (- (1 / 36028797018963968))"
  using fl_eval[of "- 55" "- (1 / 36028797018963968)" "- 4503599627370496"]
  by (simp add: round_even_def power_int_minus)
lemma fifth_5: "fl (1 / 1298074214633706907132624082305024) = Fin (1 / 1298074214633706907132624082305024)"
  using fl_eval[of "- 110" "1 / 1298074214633706907132624082305024" "4503599627370496"]
  by (simp add: round_even_def power_int_minus)
lemma fifth_6: "fl (1 / 649037107316853453566312041152512) = Fin (1 / 649037107316853453566312041152512)"
  using fl_eval[of "- 109" "1 / 649037107316853453566312041152512" "4503599627370496"]
  by (simp add: round_even_def power_int_minus)
lemma fifth_7: "fl (3 / 2596148429267413814265248164610048) = Fin (3 / 2596148429267413814265248164610048)"
  using fl_eval[of "- 110" "3 / 2596148429267413814265248164610048" "6755399441055744"]
  by (simp add: round_even_def power_int_minus)
lemma fifth_8: "fl (3 / 1298074214633706907132624082305024) = Fin (3 / 1298074214633706907132624082305024)"
  using fl_eval[of "- 109" "3 / 1298074214633706907132624082305024" "6755399441055744"]
  by (simp add: round_even_def power_int_minus)
lemma fifth_9: "fl (9 / 6739986666787659948666753771754907668409286105635143120275902562304) = Fin (9 / 6739986666787659948666753771754907668409286105635143120275902562304)"
  using fl_eval[of "- 219" "9 / 6739986666787659948666753771754907668409286105635143120275902562304" "5066549580791808"]
  by (simp add: round_even_def power_int_minus)

lemma sqrt_fifth: "sqrt (9 / 6739986666787659948666753771754907668409286105635143120275902562304) = 3 / 2596148429267413814265248164610048"
  by (rule real_sqrt_unique) (simp_all add: power2_eq_square)

lemma large_1: "fl (231584178474632390847141970017375815706539969331281128078915168015826259279872) = Fin 231584178474632390847141970017375815706539969331281128078915168015826259279872"
  using fl_eval[of "257" "231584178474632390847141970017375815706539969331281128078915168015826259279872" "4503599627370496"]
  by (simp add: round_even_def power_int_minus)
lemma large_2: "fl (115792089237316195423570985008687907853269984665640564039457584007913129639936) = Fin 115792089237316195423570985008687907853269984665640564039457584007913129639936"
  using fl_eval[of "256" "115792089237316195423570985008687907853269984665640564039457584007913129639936" "4503599627370496"]
  by (simp add: round_even_def power_int_minus)
lemma large_3: "fl (- 115792089237316195423570985008687907853269984665640564039457584007913129639936) = Fin (- 115792089237316195423570985008687907853269984665640564039457584007913129639936)"
  using fl_eval[of "256" "- 115792089237316195423570985008687907853269984665640564039457584007913129639936" "- 4503599627370496"]
  by (simp add: round_even_def power_int_minus)
lemma large_4: "fl (13407807929942597099574024998205846127479365820592393377723561443721764030073546976801874298166903427690031858186486050853753882811946569946433649006084096) = Fin 13407807929942597099574024998205846127479365820592393377723561443721764030073546976801874298166903427690031858186486050853753882811946569946433649006084096"
  using fl_eval[of "512" "13407807929942597099574024998205846127479365820592393377723561443721764030073546976801874298166903427690031858186486050853753882811946569946433649006084096" "4503599627370496"]
  by (simp add: round_even_def power_int_minus)
lemma large_5: "fl (26815615859885194199148049996411692254958731641184786755447122887443528060147093953603748596333806855380063716372972101707507765623893139892867298012168192) = Fin 26815615859885194199148049996411692254958731641184786755447122887443528060147093953603748596333806855380063716372972101707507765623893139892867298012168192"
  using fl_eval[of "513" "26815615859885194199148049996411692254958731641184786755447122887443528060147093953603748596333806855380063716372972101707507765623893139892867298012168192" "4503599627370496"]
  by (simp add: round_even_def power_int_minus)
lemma large_6: "fl (719077253944926363091722076315609893447190791576922629093720324630930703222003852530833909289630144084480455519485573430635159075257666489971389722557896497511071573699461941105208878404984376477812331808340023075352602729369851525895652442163308948653402042738345192959788983753918865219341425318496896548864) = PInf"
  using fl_overflow[of "719077253944926363091722076315609893447190791576922629093720324630930703222003852530833909289630144084480455519485573430635159075257666489971389722557896497511071573699461941105208878404984376477812331808340023075352602729369851525895652442163308948653402042738345192959788983753918865219341425318496896548864"] by simp




section \<open>Cross-correlation\<close>

text \<open>
  At an integer lag below \<open>2 ^ 32\<close> in magnitude the padding is built, and the shifted copy
  is the padding followed by a prefix of \<open>y\<close>, or a suffix of \<open>y\<close> followed by the padding.
\<close>

lemma new_Array_null_int:
  "0 \<le> L \<Longrightarrow> L < 2 ^ 32 \<Longrightarrow> new_Array_null (of_int L) = Inr (replicate (nat L) None)"
  by (simp add: new_Array_null_def)

lemma to_integer_of_int [simp]: "to_integer (of_int L) = L"
  by (simp add: to_integer_def)

lemma shiftY_int:
  assumes "\<bar>L\<bar> < 2 ^ 32"
  shows "shiftY y (of_int L) =
     Inr (if 0 < L then replicate (nat L) None @ map Some (take (length y - nat L) y)
          else map Some (drop (nat (- L)) y) @ replicate (nat (- L)) None)"
proof -
  consider "0 < L" | "L < 0" | "L = 0" by linarith
  then show ?thesis
  proof cases
    case 1
    have "nat (max (int (length y) - L) 0) = length y - nat L" using 1 by linarith
    moreover have "to_integer (- real_of_int L) = - L"
      using to_integer_of_int[of "- L"] by simp
    ultimately show ?thesis
      using 1 assms by (simp add: shiftY_def js_slice_def Let_def new_Array_null_int)
  next
    case 2
    have "drop (nat (min (- L) (int (length y)))) y = drop (nat (- L)) y"
      by (cases "- L \<le> int (length y)") (simp_all add: min_def)
    moreover have "to_integer (- real_of_int L) = - L"
      using to_integer_of_int[of "- L"] by simp
    moreover have "new_Array_null (- real_of_int L) = Inr (replicate (nat (- L)) None)"
      using new_Array_null_int[of "- L"] 2 assms by simp
    ultimately show ?thesis
      using 2 by (simp add: shiftY_def js_slice_from_def js_slice_def Let_def)
  next
    case 3
    then show ?thesis by (simp add: shiftY_def)
  qed
qed

lemma validIndices_pad_left:
  "validIndices (replicate k None @ map Some ys) = [k..<k + length ys]"
proof -
  have "filter (\<lambda>i. (replicate k None @ map Some ys) ! i \<noteq> None) [0..<k + length ys]
      = [k..<k + length ys]"
  proof -
    have split: "[0..<k + length ys] = [0..<k] @ [k..<k + length ys]"
      by (metis le_add1 upt_add_eq_append zero_le)
    have a: "filter (\<lambda>i. (replicate k None @ map Some ys) ! i \<noteq> None) [0..<k] = []"
      by (auto simp: filter_empty_conv nth_append)
    have b: "filter (\<lambda>i. (replicate k None @ map Some ys) ! i \<noteq> None) [k..<k + length ys]
        = [k..<k + length ys]"
      by (auto simp: filter_id_conv nth_append)
    show ?thesis by (simp only: split filter_append a b append_Nil)
  qed
  then show ?thesis by (simp add: validIndices_def)
qed

lemma validIndices_pad_right:
  "validIndices (map Some ys @ replicate k None) = [0..<length ys]"
proof -
  have split: "[0..<length ys + k] = [0..<length ys] @ [length ys..<length ys + k]"
    by (metis le_add1 upt_add_eq_append zero_le)
  have a: "filter (\<lambda>i. (map Some ys @ replicate k None) ! i \<noteq> None) [0..<length ys]
      = [0..<length ys]"
    by (auto simp: filter_id_conv nth_append)
  have b: "filter (\<lambda>i. (map Some ys @ replicate k None) ! i \<noteq> None) [length ys..<length ys + k]
      = []"
    by (auto simp: filter_empty_conv nth_append)
  have "filter (\<lambda>i. (map Some ys @ replicate k None) ! i \<noteq> None) [0..<length ys + k]
      = [0..<length ys]"
    by (simp only: split filter_append a b append_Nil2)
  then show ?thesis by (simp add: validIndices_def)
qed

lemma validY_pad_left: "validY (replicate k None @ map Some ys) = ys"
  by (rule nth_equalityI) (simp_all add: validY_def validIndices_pad_left nth_append)

lemma validY_pad_right: "validY (map Some ys @ replicate k None) = ys"
  by (rule nth_equalityI) (simp_all add: validY_def validIndices_pad_right nth_append)

lemma map_js_nth: "k + m \<le> length x \<Longrightarrow> map (js_nth x) [k..<k + m] = take m (drop k x)"
  by (rule nth_equalityI) (simp_all add: js_nth_def)

lemma length_aligned:
  "length x = length y \<Longrightarrow> length (aligned_x x l) = length x - nat \<bar>l\<bar>"
  "length x = length y \<Longrightarrow> length (aligned_y y l) = length x - nat \<bar>l\<bar>"
  by (auto simp: aligned_x_def aligned_y_def)

lemma pearson_returns:
  "length a = length b \<Longrightarrow> a \<noteq> [] \<Longrightarrow> \<exists>c. pearsonCorrelation a b = Inr c"
  by (auto simp: pearsonCorrelation_def split: prod.splits)

lemma valid_aligned:
  assumes "length x = length y" "\<bar>L\<bar> < 2 ^ 32"
  shows "\<exists>s. shiftY y (of_int L) = Inr s \<and> validX x s = aligned_x x L
     \<and> validY s = aligned_y y L"
proof -
  consider "0 < L" | "L < 0" | "L = 0" by linarith
  then show ?thesis
  proof cases
    case 1
    have "map (js_nth x) [nat L..<nat L + (length y - nat L)] = drop (nat L) x"
    proof (cases "nat L \<le> length y")
      case True
      then have "nat L + (length y - nat L) \<le> length x" using assms by simp
      from map_js_nth[OF this] show ?thesis using assms by simp
    next
      case False
      then show ?thesis using assms by simp
    qed
    with 1 show ?thesis
      by (simp add: shiftY_int[OF assms(2)] validX_def validIndices_pad_left validY_pad_left
            aligned_x_def aligned_y_def)
  next
    case 2
    have "map (js_nth x) [0..<0 + (length y - nat (- L))] = take (length y - nat (- L)) (drop 0 x)"
      by (rule map_js_nth) (simp add: assms)
    with 2 show ?thesis
      by (simp add: shiftY_int[OF assms(2)] validX_def validIndices_pad_right validY_pad_right
            aligned_x_def aligned_y_def assms)
  next
    case 3
    have "validIndices (map Some y @ replicate 0 None) = [0..<length y]"
      by (rule validIndices_pad_right)
    moreover have "validY (map Some y @ replicate 0 None) = y"
      by (rule validY_pad_right)
    moreover have "map (js_nth x) [0..<0 + length y] = take (length y) (drop 0 x)"
      by (rule map_js_nth) (simp add: assms)
    ultimately show ?thesis using 3
      by (simp add: shiftY_def validX_def aligned_x_def aligned_y_def assms)
  qed
qed

lemma cc_loop_step:
  assumes "length x = length y" "\<bar>L\<bar> < 2 ^ 32"
  shows "cc_loop x y (of_int K) (of_int L) results =
     (if L \<le> K then
        (if \<bar>L\<bar> < int (length x) then
           cc_loop x y (of_int K) (of_int (L + 1))
             (results @ [\<lparr>lag = of_int L,
                correlation = projr (pearsonCorrelation (aligned_x x L) (aligned_y y L)),
                dataPoints = length x - nat \<bar>L\<bar>\<rparr>])
         else cc_loop x y (of_int K) (of_int (L + 1)) results)
      else Inr results)"
proof -
  from valid_aligned[OF assms] obtain s where s: "shiftY y (of_int L) = Inr s"
    "validX x s = aligned_x x L" "validY s = aligned_y y L" by blast
  show ?thesis
  proof (cases "\<bar>L\<bar> < int (length x)")
    case True
    then have pos: "0 < length x - nat \<bar>L\<bar>" by linarith
    then have "aligned_x x L \<noteq> []" using length_aligned(1)[OF assms(1), of L] by auto
    moreover have "length (aligned_x x L) = length (aligned_y y L)"
      by (simp add: length_aligned[OF assms(1)])
    ultimately obtain c where c: "pearsonCorrelation (aligned_x x L) (aligned_y y L) = Inr c"
      using pearson_returns by blast
    show ?thesis
      using True pos
      by (subst cc_loop.simps) (simp add: s length_aligned[OF assms(1)] c add.commute)
  next
    case False
    then have "length x - nat \<bar>L\<bar> = 0" by linarith
    with False show ?thesis
      by (subst cc_loop.simps) (simp add: s length_aligned[OF assms(1)] add.commute)
  qed
qed

lemma cc_loop_finished: "maxLag < l \<Longrightarrow> cc_loop x y maxLag l results = Inr results"
  by (subst cc_loop.simps) simp

lemma cc_loop_closed_form:
  assumes "length x = length y" "K < 2 ^ 32" "- (2 ^ 32) < L"
  shows "cc_loop x y (of_int K) (of_int L) results =
     Inr (results @
       map (\<lambda>L. \<lparr>lag = of_int L,
              correlation = projr (pearsonCorrelation (aligned_x x L) (aligned_y y L)),
              dataPoints = length x - nat \<bar>L\<bar>\<rparr>)
         (filter (\<lambda>L. \<bar>L\<bar> < int (length x)) [L..K]))"
  using assms(3)
proof (induction "nat (K - L + 1)" arbitrary: L results)
  case 0
  then have gt: "K < L" by linarith
  then have "[L..K] = []" by simp
  with gt show ?case by (simp add: cc_loop_finished)
next
  case (Suc k)
  then have le: "L \<le> K" and k: "k = nat (K - (L + 1) + 1)" by linarith+
  from le assms(2) Suc.prems have small: "\<bar>L\<bar> < 2 ^ 32" by linarith
  from Suc.prems have next_ok: "- (2 ^ 32) < L + 1" by linarith
  have upto: "[L..K] = L # [L + 1..K]" using le by (simp add: upto_rec1)
  note IH = Suc.hyps(1)[OF k next_ok]
  show ?case
    by (subst cc_loop_step[OF assms(1) small]) (simp only: le if_True IH upto, simp)
qed

text \<open>
  Claim C7, counterexample. The two arrays have the same length, and with
  \<open>maxLag = 2 ^ 32\<close> the call returns no record at all: the first iteration asks for
  \<open>new Array(4294967296)\<close>, which raises a \<open>RangeError\<close>.
\<close>

theorem crossCorrelation_huge_maxLag_counterexample:
  "crossCorrelation [Fin 1, Fin 2] [Fin 3, Fin 5] (Fin 4294967296) = Inl RangeError"
  by (simp add: crossCorrelation_def, subst cc_loop.simps)
     (simp add: shiftY_def new_Array_null_def)

text \<open>
  Claim C7, amended. On two arrays of the same length \<open>n\<close> and an integer \<open>maxLag\<close> below
  \<open>2 ^ 32\<close>, \<open>crossCorrelation\<close> returns, and its result holds one record for each lag
  \<open>L\<close> of \<open>[-maxLag, maxLag]\<close> with \<open>|L| < n\<close>, in ascending order of the lag, and none for
  any other lag. The record of a lag holds the number \<open>n - |L|\<close> of surviving pairs, which
  is positive, and the Pearson coefficient of those pairs. On any two arrays, a positive
  \<open>maxLag\<close> that is not an integer, or is \<open>2 ^ 32\<close> or more, makes the call raise a
  \<open>RangeError\<close>.
\<close>

theorem crossCorrelation_one_record_per_valid_lag:
  "(length x = length y \<and> K < 2 ^ 32 \<longrightarrow>
      (\<exists>rs. crossCorrelation x y (Fin (of_int K)) = Inr rs
        \<and> map lag rs = map of_int (filter (\<lambda>L. \<bar>L\<bar> < int (length x)) [- K..K])
        \<and> (\<forall>r \<in> set rs. \<exists>L. lag r = of_int L
              \<and> dataPoints r = length x - nat \<bar>L\<bar> \<and> 0 < dataPoints r
              \<and> pearsonCorrelation (aligned_x x L) (aligned_y y L) = Inr (correlation r))))
   \<and> (0 < m \<and> (m \<noteq> of_int \<lfloor>m\<rfloor> \<or> 2 ^ 32 \<le> m) \<longrightarrow>
        crossCorrelation x y (Fin m) = Inl RangeError)"
proof (intro conjI impI)
  assume h: "length x = length y \<and> K < 2 ^ 32"
  then have len: "length x = length y" and K: "K < 2 ^ 32" by simp_all
  from K have L0: "- (2 ^ 32) < - K" by simp
  define entry where "entry = (\<lambda>L. \<lparr>lag = real_of_int L,
      correlation = projr (pearsonCorrelation (aligned_x x L) (aligned_y y L)),
      dataPoints = length x - nat \<bar>L\<bar>\<rparr>)"
  define rs where "rs = map entry (filter (\<lambda>L. \<bar>L\<bar> < int (length x)) [- K..K])"
  have "crossCorrelation x y (Fin (of_int K)) = cc_loop x y (of_int K) (of_int (- K)) []"
    by (simp add: crossCorrelation_def)
  then have run: "crossCorrelation x y (Fin (of_int K)) = Inr rs"
    by (simp only: cc_loop_closed_form[OF len K L0] rs_def entry_def append_Nil)
  have lags: "map lag rs = map of_int (filter (\<lambda>L. \<bar>L\<bar> < int (length x)) [- K..K])"
    by (simp add: rs_def entry_def comp_def)
  have each: "\<exists>L. lag r = of_int L
      \<and> dataPoints r = length x - nat \<bar>L\<bar> \<and> 0 < dataPoints r
      \<and> pearsonCorrelation (aligned_x x L) (aligned_y y L) = Inr (correlation r)"
    if "r \<in> set rs" for r
  proof -
    from that obtain L where L: "\<bar>L\<bar> < int (length x)" and r: "r = entry L"
      by (auto simp: rs_def)
    from L have pos: "0 < length x - nat \<bar>L\<bar>" by linarith
    then have "aligned_x x L \<noteq> []" using length_aligned(1)[OF len, of L] by auto
    moreover have "length (aligned_x x L) = length (aligned_y y L)"
      by (simp add: length_aligned[OF len])
    ultimately obtain c where "pearsonCorrelation (aligned_x x L) (aligned_y y L) = Inr c"
      using pearson_returns by blast
    with pos have "lag r = of_int L
      \<and> dataPoints r = length x - nat \<bar>L\<bar> \<and> 0 < dataPoints r
      \<and> pearsonCorrelation (aligned_x x L) (aligned_y y L) = Inr (correlation r)"
      by (simp add: r entry_def)
    then show ?thesis by blast
  qed
  from run lags each show "\<exists>rs. crossCorrelation x y (Fin (of_int K)) = Inr rs
        \<and> map lag rs = map of_int (filter (\<lambda>L. \<bar>L\<bar> < int (length x)) [- K..K])
        \<and> (\<forall>r \<in> set rs. \<exists>L. lag r = of_int L
              \<and> dataPoints r = length x - nat \<bar>L\<bar> \<and> 0 < dataPoints r
              \<and> pearsonCorrelation (aligned_x x L) (aligned_y y L) = Inr (correlation r))"
    by blast
next
  assume h: "0 < m \<and> (m \<noteq> of_int \<lfloor>m\<rfloor> \<or> 2 ^ 32 \<le> m)"
  then have "new_Array_null m = Inl RangeError" by (auto simp: new_Array_null_def)
  with h show "crossCorrelation x y (Fin m) = Inl RangeError"
    by (simp add: crossCorrelation_def, subst cc_loop.simps) (simp add: shiftY_def)
qed

theorem crossCorrelation_one_record_per_valid_lag_witness:
  "(\<exists>rs. crossCorrelation [Fin 1, Fin 2] [Fin 3, Fin 5] (Fin 3) = Inr rs
     \<and> map lag rs = [- 1, 0, 1] \<and> map dataPoints rs = [1, 2, 1])
   \<and> crossCorrelation [Fin 1, Fin 2] [Fin 3, Fin 5] (Fin (5 / 2)) = Inl RangeError"
proof -
  note t = crossCorrelation_one_record_per_valid_lag
    [of "[Fin 1, Fin 2]" "[Fin 3, Fin 5]" 3 "5 / 2"]
  have hyp: "length [Fin 1, Fin 2] = length [Fin 3, Fin 5] \<and> (3::int) < 2 ^ 32" by simp
  from t[THEN conjunct1, THEN mp, OF hyp] obtain rs where
    run: "crossCorrelation [Fin 1, Fin 2] [Fin 3, Fin 5] (Fin (real_of_int 3)) = Inr rs"
    and lags: "map lag rs
      = map real_of_int (filter (\<lambda>L. \<bar>L\<bar> < int (length [Fin 1, Fin 2])) [- 3..3])"
    and each: "\<forall>r \<in> set rs. \<exists>L. lag r = real_of_int L
        \<and> dataPoints r = length [Fin 1, Fin 2] - nat \<bar>L\<bar> \<and> 0 < dataPoints r
        \<and> pearsonCorrelation (aligned_x [Fin 1, Fin 2] L) (aligned_y [Fin 3, Fin 5] L)
            = Inr (correlation r)"
    by blast
  from run have r3: "crossCorrelation [Fin 1, Fin 2] [Fin 3, Fin 5] (Fin 3) = Inr rs" by simp
  from lags have l: "map lag rs = [- 1, 0, 1]" by (simp add: upto_rec1)
  have "dataPoints r = 2 - nat \<bar>\<lfloor>lag r\<rfloor>\<bar>" if "r \<in> set rs" for r
  proof -
    from each that obtain L where "lag r = real_of_int L"
      "dataPoints r = length [Fin 1, Fin 2] - nat \<bar>L\<bar>" by blast
    then show ?thesis by simp
  qed
  then have "map dataPoints rs = map (\<lambda>v. 2 - nat \<bar>\<lfloor>v\<rfloor>\<bar>) (map lag rs)"
    by (simp add: map_eq_conv)
  moreover have "\<lfloor>- 1 :: real\<rfloor> = - 1"
    using floor_of_int[of "- 1", where ?'a = real] by simp
  ultimately have dp: "map dataPoints rs = [1, 2, 1]" by (simp add: l)
  have "0 < (5::real) / 2 \<and> ((5::real) / 2 \<noteq> of_int \<lfloor>(5::real) / 2\<rfloor> \<or> 2 ^ 32 \<le> (5::real) / 2)"
    by simp
  from t[THEN conjunct2, THEN mp, OF this]
  have err: "crossCorrelation [Fin 1, Fin 2] [Fin 3, Fin 5] (Fin (5 / 2)) = Inl RangeError" .
  have "\<exists>rs. crossCorrelation [Fin 1, Fin 2] [Fin 3, Fin 5] (Fin 3) = Inr rs
     \<and> map lag rs = [- 1, 0, 1] \<and> map dataPoints rs = [1, 2, 1]"
    by (rule exI[of _ rs]) (simp only: r3 l dp simp_thms)
  then show ?thesis using err by (rule conjI)
qed

section \<open>Standard deviation of a constant array\<close>

lemma foldl_fl_add_zero: "\<forall>v \<in> set xs. v = Fin 0 \<Longrightarrow> foldl fl_add (Fin 0) xs = Fin 0"
  by (induction xs) simp_all

lemma mean_zeros: "\<forall>v \<in> set xs. v = Fin 0 \<Longrightarrow> mean xs = Fin 0"
  by (simp add: mean_def foldl_fl_add_zero)

lemma square_diffs_zero:
  "\<forall>v \<in> set data. v = Fin c \<Longrightarrow>
   \<forall>v \<in> set (map (\<lambda>val. fl_pow (fl_sub val (Fin c)) 2) data). v = Fin 0"
  by auto

lemma ratio_finite:
  assumes "2 \<le> n"
  shows "\<exists>r. fl_div (Fin (real n)) (Fin (real n - 1)) = Fin r"
proof -
  have "real n / (real n - 1) \<le> 2" using assms by (simp add: field_simps)
  moreover have "0 \<le> real n / (real n - 1)" using assms by simp
  moreover have "(2::real) \<le> 2 ^ 1023" by simp
  ultimately have "\<bar>real n / (real n - 1)\<bar> \<le> 2 ^ 1023" by linarith
  from fl_finite[OF this] show ?thesis using assms by simp
qed

lemma tenth_10: "fl (1 / 72057594037927936) = Fin (1 / 72057594037927936)"
  using fl_eval[of "- 56" "1 / 72057594037927936" "4503599627370496"]
  by (simp add: round_even_def power_int_minus)

lemma sqrt_tenth_sq: "sqrt (1 / 5192296858534827628530496329220096) = 1 / 72057594037927936"
  by (rule real_sqrt_unique) (simp_all add: power2_eq_square)

text \<open>
  Claim C8, counterexample. In sample mode a one-element array gives NaN: the divisor
  \<open>n - 1\<close> is 0, the factor \<open>n / (n - 1)\<close> is \<open>Infinity\<close>, and \<open>0 * Infinity\<close> is NaN. In
  population mode the constant array of three times the double nearest to 0.1 gives
  \<open>2 powi - 56\<close>, not 0: the computed mean is the next double above the element.
\<close>

theorem standardDeviation_constant_counterexample:
  "standardDeviation [Fin 5] True = NaN
   \<and> standardDeviation
        [Fin (3602879701896397 / 36028797018963968), Fin (3602879701896397 / 36028797018963968),
         Fin (3602879701896397 / 36028797018963968)] False = Fin (1 / 72057594037927936)"
proof
  show "standardDeviation [Fin 5] True = NaN"
    by (simp add: standardDeviation_def mean_def Let_def fl_sqrt_def fl_mul_def fl_div_def)
  show "standardDeviation
        [Fin (3602879701896397 / 36028797018963968), Fin (3602879701896397 / 36028797018963968),
         Fin (3602879701896397 / 36028797018963968)] False = Fin (1 / 72057594037927936)"
    by (simp add: standardDeviation_def mean_def Let_def power2_eq_square
        sqrt_tenth_sq tenth_1 tenth_2 tenth_3 tenth_4 tenth_5 tenth_6 tenth_7 tenth_8 tenth_10)
qed

text \<open>
  Claim C8, amended. Let every element of a non-empty array be the finite number \<open>c\<close>, and
  let the mean computed for the array be \<open>c\<close> itself. Then \<open>standardDeviation\<close> returns 0 in
  population mode, and in sample mode when the array has at least two elements; for one
  element in sample mode it returns NaN.
\<close>

theorem standardDeviation_constant:
  "(\<forall>v \<in> set data. v = Fin c) \<and> mean data = Fin c \<and> data \<noteq> [] \<longrightarrow>
     standardDeviation data False = Fin 0
     \<and> (2 \<le> length data \<longrightarrow> standardDeviation data True = Fin 0)
     \<and> (length data = 1 \<longrightarrow> standardDeviation data True = NaN)"
proof (intro impI)
  assume h: "(\<forall>v \<in> set data. v = Fin c) \<and> mean data = Fin c \<and> data \<noteq> []"
  then have all: "\<forall>v \<in> set data. v = Fin c" and avg: "mean data = Fin c" and ne: "data \<noteq> []"
    by auto
  define sq where "sq = map (\<lambda>val. fl_pow (fl_sub val (Fin c)) 2) data"
  have msq: "mean sq = Fin 0"
    unfolding sq_def by (rule mean_zeros) (rule square_diffs_zero[OF all])
  have n0: "real (length data) \<noteq> 0" using ne by simp
  have pop: "standardDeviation data False = Fin 0"
    using ne n0 by (simp add: standardDeviation_def Let_def avg sq_def[symmetric] msq)
  have smp: "standardDeviation data True = Fin 0" if "2 \<le> length data"
  proof -
    from ratio_finite[OF that] obtain r where
      r: "fl_div (Fin (real (length data))) (Fin (real (length data) - 1)) = Fin r" by blast
    show ?thesis
      using ne by (simp add: standardDeviation_def Let_def avg sq_def[symmetric] msq r)
  qed
  have one: "standardDeviation data True = NaN" if "length data = 1"
    using ne that
    by (simp add: standardDeviation_def Let_def avg sq_def[symmetric] msq fl_div_def fl_mul_def fl_sqrt_def)
  from pop smp one show "standardDeviation data False = Fin 0
     \<and> (2 \<le> length data \<longrightarrow> standardDeviation data True = Fin 0)
     \<and> (length data = 1 \<longrightarrow> standardDeviation data True = NaN)" by blast
qed

theorem standardDeviation_constant_witness:
  "standardDeviation [Fin 5, Fin 5, Fin 5] False = Fin 0
   \<and> standardDeviation [Fin 5, Fin 5, Fin 5] True = Fin 0
   \<and> standardDeviation [Fin 5] True = NaN"
  using standardDeviation_constant [of "[Fin 5, Fin 5, Fin 5]" 5]
    standardDeviation_constant [of "[Fin 5]" 5]
  by (simp add: mean_def)

section \<open>Normalisation to the unit interval\<close>

lemma normalize_Fin:
  assumes "xs \<noteq> []"
  shows "normalize (map Fin xs) =
     (if fl (Max (set xs) - Min (set xs)) = Fin 0 then map (\<lambda>_. Fin (1 / 2)) xs
      else map (\<lambda>v. fl_div (fl_sub (Fin v) (Fin (Min (set xs))))
                        (fl (Max (set xs) - Min (set xs)))) xs)"
  using assms
  by (simp add: normalize_def Math_min_Fin Math_max_Fin Let_def comp_def js_strict_eq_def)

lemma fl_double_overflow: "fl (2 ^ 1023 + 2 ^ 1023) = PInf"
  using fl_overflow[of "2 ^ 1023 + 2 ^ 1023"] by simp

text \<open>
  Claim C10, counterexample. The minimum \<open>- (2 ^ 1023)\<close> and the maximum \<open>2 ^ 1023\<close> are
  doubles and differ, but their difference overflows: the range is \<open>Infinity\<close>, the minimum
  goes to \<open>0 / Infinity = 0\<close> and the maximum to \<open>Infinity / Infinity\<close>, which is NaN and
  not 1.
\<close>

theorem normalize_overflow_counterexample:
  "normalize [Fin (- (2 ^ 1023)), Fin (2 ^ 1023)] = [Fin 0, NaN]"
  using fl_double_overflow
  by (simp add: normalize_def Math_min_def Math_max_def js_min2_def js_max2_def Let_def
        js_strict_eq_def fl_div_def)

text \<open>
  Claim C10, amended. On a non-empty constant array of finite numbers \<open>normalize\<close> returns an
  array of the same length whose entries are all 0.5. On an array of doubles whose minimum
  and maximum differ and whose range \<open>max - min\<close> rounds to a finite number \<open>r\<close> (it does not
  overflow), it maps each value \<open>v\<close> to the rounded quotient of the rounded difference
  \<open>v - min\<close> by \<open>r\<close>, so that the minimum goes to 0 and the maximum to 1.
\<close>

theorem normalize_constant_and_range:
  "(xs \<noteq> [] \<and> constant_array xs \<longrightarrow>
      normalize (map Fin xs) = replicate (length xs) (Fin (1 / 2)))
   \<and> (xs \<noteq> [] \<and> (\<forall>v \<in> set xs. is_double v) \<and> Min (set xs) \<noteq> Max (set xs)
        \<and> fl (Max (set xs) - Min (set xs)) = Fin r \<longrightarrow>
        normalize (map Fin xs)
          = map (\<lambda>v. fl_div (fl_sub (Fin v) (Fin (Min (set xs)))) (Fin r)) xs
        \<and> (\<forall>i < length xs. xs ! i = Min (set xs) \<longrightarrow> normalize (map Fin xs) ! i = Fin 0)
        \<and> (\<forall>i < length xs. xs ! i = Max (set xs) \<longrightarrow> normalize (map Fin xs) ! i = Fin 1))"
proof (intro conjI impI)
  assume "xs \<noteq> [] \<and> constant_array xs"
  then show "normalize (map Fin xs) = replicate (length xs) (Fin (1 / 2))"
    by (simp add: normalize_Fin constant_Min_Max map_replicate_const)
next
  assume h: "xs \<noteq> [] \<and> (\<forall>v \<in> set xs. is_double v) \<and> Min (set xs) \<noteq> Max (set xs)
        \<and> fl (Max (set xs) - Min (set xs)) = Fin r"
  then have ne: "xs \<noteq> []" and dbl: "\<forall>v \<in> set xs. is_double v"
    and diff: "Max (set xs) \<noteq> Min (set xs)" and r: "fl (Max (set xs) - Min (set xs)) = Fin r"
    by auto
  have "Max (set xs) \<in> set xs" "Min (set xs) \<in> set xs" using ne by simp_all
  with dbl have "is_double (Max (set xs))" "is_double (Min (set xs))" by blast+
  from double_difference_nonzero[OF this diff] r have r0: "r \<noteq> 0" by auto
  show eq: "normalize (map Fin xs)
      = map (\<lambda>v. fl_div (fl_sub (Fin v) (Fin (Min (set xs)))) (Fin r)) xs"
    using ne r r0 by (simp add: normalize_Fin)
  show "\<forall>i < length xs. xs ! i = Min (set xs) \<longrightarrow> normalize (map Fin xs) ! i = Fin 0"
    using r0 by (simp add: eq)
  show "\<forall>i < length xs. xs ! i = Max (set xs) \<longrightarrow> normalize (map Fin xs) ! i = Fin 1"
    using r0 r by (simp add: eq)
qed

theorem normalize_constant_and_range_witness:
  "normalize [Fin 7, Fin 7, Fin 7] = [Fin (1 / 2), Fin (1 / 2), Fin (1 / 2)]
   \<and> normalize [Fin 2, Fin 4, Fin 10] = [Fin 0, Fin (1 / 4), Fin 1]"
  using normalize_constant_and_range [of "[7, 7, 7]"] normalize_constant_and_range [of "[2, 4, 10]" 8]
    fl_eval [of "- 2" "1 / 4" "2 ^ 52"]
  by (simp add: constant_array_def numeral_3_eq_3 is_double_def power_int_minus)

section \<open>Percentile\<close>

text \<open>
  The sorted copy has the length of the array. A read at the floor of a negative index, or
  at the ceiling of an index beyond the last position, yields \<open>undefined\<close>, and the
  interpolation is then NaN. The lemmas \<open>index_negative\<close> and \<open>index_beyond\<close> place the
  computed index \<open>(p / 100) * (n - 1)\<close>, with both roundings, outside the array.
\<close>

lemma length_sort_insert [simp]: "length (sort_insert a bs) = Suc (length bs)"
  by (induction bs) simp_all

lemma length_js_sort [simp]: "length (js_sort data) = length data"
  by (induction data) (simp_all add: js_sort_def)

lemma js_read_num_negative: "i < 0 \<Longrightarrow> js_read_num arr (js_floor (Fin i)) = NaN"
proof -
  assume "i < 0"
  then have "\<lfloor>i\<rfloor> < 0" by linarith
  then show ?thesis by (simp add: js_read_num_def js_index_def)
qed

lemma js_read_num_beyond:
  "real (length arr) - 1 < i \<Longrightarrow> js_read_num arr (js_ceil (Fin i)) = NaN"
proof -
  assume "real (length arr) - 1 < i"
  then have "int (length arr) \<le> \<lceil>i\<rceil>" by linarith
  then have "\<not> nat \<lceil>i\<rceil> < length arr" by linarith
  then show ?thesis by (simp add: js_read_num_def js_index_def)
qed

lemma js_read_num_not_Fin [simp]:
  "js_read_num arr PInf = NaN" "js_read_num arr NInf = NaN" "js_read_num arr NaN = NaN"
  by (simp_all add: js_read_num_def js_index_def)

lemma percentile_outside:
  assumes "data \<noteq> []"
    and "idx = fl_mul (fl_div p (Fin 100)) (Fin (real (length data) - 1))"
    and "idx = NaN \<or> idx = PInf \<or> idx = NInf
     \<or> (\<exists>i. idx = Fin i \<and> (i < 0 \<or> real (length data) - 1 < i))"
  shows "percentile data p = Inr NaN"
proof -
  have "fl_add (fl_mul (js_read_num (js_sort data) (js_floor idx)) (fl_sub (Fin 1) (fl_sub idx (js_floor idx))))
            (fl_mul (js_read_num (js_sort data) (js_ceil idx)) (fl_sub idx (js_floor idx))) = NaN"
    using assms(3) js_read_num_negative[of _ "js_sort data"] js_read_num_beyond[of "js_sort data"]
    by auto
  then show ?thesis
    using assms(1) by (simp add: percentile_def Let_def assms(2)[symmetric])
qed

lemma fl_not_NaN [simp]: "fl x \<noteq> NaN"
  using fl_cases[of x] by auto

lemma rounded_negative:
  assumes "y \<le> - (2 powi (- 1074))"
  shows "fl y = NInf \<or> (\<exists>i. fl y = Fin i \<and> i < 0)"
proof -
  have u: "0 < (2::real) powi (- 1074)" by (rule zero_less_power_int) simp
  with assms have neg: "y < 0" by linarith
  from assms neg have "2 powi (- 1074) \<le> \<bar>y\<bar>" by simp
  then have nz: "fl y \<noteq> Fin 0" by (rule fl_nonzero)
  show ?thesis
  proof (cases "fl y")
    case (Fin i)
    from fl_sign(1)[OF Fin] neg have "i \<le> 0" by simp
    with nz Fin show ?thesis by auto
  next
    case PInf
    with fl_cases[of y] neg show ?thesis by auto
  next
    case NInf
    then show ?thesis by simp
  next
    case NaN
    then show ?thesis by simp
  qed
qed

lemma index_negative:
  assumes "p < - (100 * 2 powi (- 1075))" "1 \<le> N"
  shows "fl_mul (fl_div (Fin p) (Fin 100)) (Fin N) = NInf
     \<or> (\<exists>i. fl_mul (fl_div (Fin p) (Fin 100)) (Fin N) = Fin i \<and> i < 0)"
proof -
  define x where "x = p / 100"
  have c: "0 < (2::real) powi (- 1075)" by (rule zero_less_power_int) simp
  have u: "0 < (2::real) powi (- 1074)" by (rule zero_less_power_int) simp
  from assms(1) have x: "x < - (2 powi (- 1075))" by (simp add: x_def)
  with c have neg: "x < 0" by linarith
  from x neg have "2 powi (- 1075) < \<bar>x\<bar>" by simp
  then have nz: "fl x \<noteq> Fin 0" by (rule fl_nonzero_tight)
  have div: "fl_div (Fin p) (Fin 100) = fl x" by (simp add: x_def)
  show ?thesis
  proof (cases "fl x")
    case (Fin q)
    from fl_sign(1)[OF Fin] neg have "q \<le> 0" by simp
    with nz Fin have q: "q < 0" by auto
    from fl_multiple[OF Fin binade_ge] obtain k :: int where
      k: "q = of_int k * 2 powi (- 1022 - 52)" by blast
    then have k': "q = of_int k * 2 powi (- 1074)" by simp
    with q u have "real_of_int k < 0" by (simp add: mult_less_0_iff)
    then have "k < 0" by simp
    then have "k \<le> - 1" by simp
    then have "real_of_int k \<le> real_of_int (- 1)" by (simp only: of_int_le_iff)
    then have "real_of_int k \<le> - 1" by simp
    then have "real_of_int k * 2 powi (- 1074) \<le> - 1 * 2 powi (- 1074)"
      using u by (intro mult_right_mono) simp_all
    then have q1: "q \<le> - (2 powi (- 1074))" by (simp add: k')
    have "q * N \<le> q * 1" using q assms(2) by (intro mult_left_mono_neg) simp_all
    then have "q * N \<le> q" by simp
    with q1 have "q * N \<le> - (2 powi (- 1074))" by linarith
    from rounded_negative[OF this] show ?thesis by (simp add: div Fin)
  next
    case PInf
    with fl_cases[of x] neg show ?thesis by auto
  next
    case NInf
    with assms(2) show ?thesis by (simp add: div fl_mul_def)
  next
    case NaN
    then show ?thesis by simp
  qed
qed

lemma rounded_above:
  assumes "(1 + 2 powi (- 52)) * N \<le> y" "1 \<le> N"
  shows "fl y = PInf \<or> (\<exists>i. fl y = Fin i \<and> N < i)"
proof -
  have e52: "(2::real) powi (- 52) = 1 / 4503599627370496" by (simp add: power_int_minus)
  have e53: "(2::real) powi (- 53) = 1 / 9007199254740992" by (simp add: power_int_minus)
  from assms have y1: "1 \<le> y" by (simp add: e52)
  have "(2::real) powi (- 1022) \<le> 2 powi 0" by (simp only: two_powi_le_iff)
  with y1 have norm: "2 powi (- 1022) \<le> \<bar>y\<bar>" by simp
  show ?thesis
  proof (cases "fl y")
    case (Fin i)
    from y1 have "\<bar>y\<bar> = y" by simp
    with fl_rel_error[OF Fin norm] have "\<bar>i - y\<bar> \<le> y * (1 / 9007199254740992)"
      by (simp only: e53)
    then have "y - y * (1 / 9007199254740992) \<le> i" by linarith
    with assms have "N < i" by (simp add: e52)
    with Fin show ?thesis by simp
  next
    case PInf
    then show ?thesis by simp
  next
    case NInf
    with fl_cases[of y] y1 show ?thesis by auto
  next
    case NaN
    then show ?thesis by simp
  qed
qed

lemma index_beyond:
  assumes "100 < p" "is_double p" "1 \<le> N"
  shows "fl_mul (fl_div (Fin p) (Fin 100)) (Fin N) = PInf
     \<or> (\<exists>i. fl_mul (fl_div (Fin p) (Fin 100)) (Fin N) = Fin i \<and> N < i)"
proof -
  have e46: "(2::real) powi (- 46) = 1 / 70368744177664" by (simp add: power_int_minus)
  have e52: "(2::real) powi (- 52) = 1 / 4503599627370496" by (simp add: power_int_minus)
  have e53: "(2::real) powi (- 53) = 1 / 9007199254740992" by (simp add: power_int_minus)
  from assms(2) have flp: "fl p = Fin p" by (simp add: is_double_def)
  have "(2::real) powi 6 \<le> \<bar>p\<bar>" using assms(1) by simp
  from fl_multiple[OF flp binade_le[OF this]] obtain k :: int where
    "p = of_int k * 2 powi (6 - 52)" by blast
  then have k: "p = of_int k / 70368744177664" by (simp add: e46)
  with assms(1) have "7036874417766400 < real_of_int k" by simp
  then have "7036874417766400 < k" by simp
  then have "7036874417766401 \<le> k" by simp
  then have "7036874417766401 \<le> real_of_int k" by simp
  then have p1: "7036874417766401 / 70368744177664 \<le> p" by (simp add: k)
  define x where "x = p / 100"
  from p1 have x1: "7036874417766401 / 7036874417766400 \<le> x" by (simp add: x_def)
  then have xpos: "1 \<le> x" by simp
  have "(2::real) powi (- 1022) \<le> 2 powi 0" by (simp only: two_powi_le_iff)
  with xpos have norm: "2 powi (- 1022) \<le> \<bar>x\<bar>" by simp
  have div: "fl_div (Fin p) (Fin 100) = fl x" by (simp add: x_def)
  show ?thesis
  proof (cases "fl x")
    case (Fin q)
    from xpos have "\<bar>x\<bar> = x" by simp
    with fl_rel_error[OF Fin norm] have "\<bar>q - x\<bar> \<le> x * (1 / 9007199254740992)"
      by (simp only: e53)
    then have "x - x * (1 / 9007199254740992) \<le> q" by linarith
    with x1 have q1: "1 < q" by linarith
    have "(2::real) powi 0 \<le> \<bar>x\<bar>" using xpos by simp
    from fl_multiple[OF Fin binade_le[OF this]] obtain j :: int where
      "q = of_int j * 2 powi (0 - 52)" by blast
    then have j: "q = of_int j / 4503599627370496" by (simp add: e52)
    with q1 have "4503599627370496 < real_of_int j" by simp
    then have "4503599627370496 < j" by simp
    then have "4503599627370497 \<le> j" by simp
    then have "4503599627370497 \<le> real_of_int j" by simp
    then have "1 + 1 / 4503599627370496 \<le> q" by (simp add: j)
    then have "(1 + 2 powi (- 52)) * N \<le> q * N"
      using assms(3) by (intro mult_right_mono) (simp_all add: e52)
    from rounded_above[OF this assms(3)] show ?thesis by (simp add: div Fin)
  next
    case PInf
    with assms(3) show ?thesis by (simp add: div fl_mul_def)
  next
    case NInf
    with fl_cases[of x] xpos show ?thesis by auto
  next
    case NaN
    then show ?thesis by simp
  qed
qed

lemma percentile_single:
  assumes "is_double x" "\<bar>p\<bar> < 2 ^ 1024"
  shows "percentile [Fin x] (Fin p) = Inr (Fin x)"
proof -
  have "(2::real) ^ 1024 = 2 * 2 ^ 1023" by simp
  with assms(2) have "\<bar>p\<bar> < 2 * 2 ^ 1023" by (simp only:)
  then have "\<bar>p\<bar> / 100 \<le> 2 ^ 1023" by linarith
  then have "\<bar>p / 100\<bar> \<le> 2 ^ 1023" by simp
  from fl_finite[OF this] obtain q where q: "fl (p / 100) = Fin q" by blast
  from assms(1) have x: "fl x = Fin x" by (simp add: is_double_def)
  show ?thesis
    by (simp add: percentile_def Let_def js_sort_def js_read_num_def js_index_def q x)
qed

lemma percentile_not_finite:
  assumes "data \<noteq> []"
  shows "percentile data PInf = Inr NaN" "percentile data NInf = Inr NaN"
    "percentile data NaN = Inr NaN"
proof -
  have "fl_mul PInf (Fin (real (length data) - 1)) = NaN
      \<or> fl_mul PInf (Fin (real (length data) - 1)) = PInf
      \<or> fl_mul PInf (Fin (real (length data) - 1)) = NInf"
    by (simp add: fl_mul_def)
  then show "percentile data PInf = Inr NaN"
    by (intro percentile_outside[OF assms refl]) (auto simp: fl_div_def)
  have "fl_mul NInf (Fin (real (length data) - 1)) = NaN
      \<or> fl_mul NInf (Fin (real (length data) - 1)) = PInf
      \<or> fl_mul NInf (Fin (real (length data) - 1)) = NInf"
    by (simp add: fl_mul_def)
  then show "percentile data NInf = Inr NaN"
    by (intro percentile_outside[OF assms refl]) (auto simp: fl_div_def)
  show "percentile data NaN = Inr NaN"
    by (intro percentile_outside[OF assms refl]) simp
qed

lemma fl_three_halves: "fl (3 / 2) = Fin (3 / 2)"
  using fl_eval[of 0 "3 / 2" "3 * 2 ^ 51"] by (simp add: round_even_def power_int_minus)




section \<open>Histogram of a constant array\<close>

text \<open>
  Claim C4 says that no descriptive-statistics function ever raises. \<open>histogram\<close> does
  on a constant array: the bin width is 0, \<open>(val - min) / binWidth\<close> is \<open>0 / 0\<close>, the bin
  index is NaN, \<open>histogram[NaN]\<close> is \<open>undefined\<close> and the increment of its \<open>count\<close>
  raises.
\<close>

theorem histogram_constant_array_raises:
  "histogram [Fin 5, Fin 5, Fin 5] 10 = Inl TypeError"
  by (simp add: histogram_def Math_min_def Math_max_def js_min2_def js_max2_def js_index_def Let_def)

text \<open>
  The failure is not particular to one input: \<open>histogram\<close> raises on every non-empty
  constant array of reals, whatever the number of bins.
\<close>

lemma histogram_raises_on_constant:
  assumes "xs \<noteq> []" "constant_array xs"
  shows "histogram (map Fin xs) bins = Inl TypeError"
proof -
  from assms obtain c rest where xs: "xs = c # rest" by (cases xs) auto
  have "set xs = {c}" using assms xs by (auto simp: constant_array_def)
  then have mm: "Max (set xs) = c" and c: "Min (set xs) = c" by simp_all
  have w: "fl_div (Fin 0) (Fin (real bins)) = (if bins = 0 then NaN else Fin 0)" by simp
  show ?thesis
    using assms
    by (simp add: histogram_def Math_min_Fin Math_max_Fin mm c Let_def w)
       (simp add: xs js_min2_def js_index_def)
qed

section \<open>Peak detection\<close>

lemma peaks_loop_step:
  "peaks_loop s t i acc =
     (if i < length s - 1
      then (if is_peak s t i then peaks_loop s t (i + 1) (acc @ [peak_at s i])
            else peaks_loop s t (i + 1) acc)
      else acc)"
proof -
  have c: "(int i < int (length s) - 1) = (i < length s - 1)" by linarith
  show ?thesis
    by (subst peaks_loop.simps) (auto simp: c is_peak_def peak_at_def band_def Let_def)
qed

lemma peaks_loop_filter:
  "peaks_loop s t i acc = acc @ map (peak_at s) (filter (is_peak s t) [i..<length s - 1])"
proof (induction "length s - 1 - i" arbitrary: i acc)
  case 0
  then have "\<not> i < length s - 1" by simp
  then show ?case by (subst peaks_loop_step) simp
next
  case (Suc k)
  then have lt: "i < length s - 1" and k: "k = length s - 1 - (i + 1)" by simp_all
  have upt: "[i..<length s - 1] = i # [i + 1..<length s - 1]"
    using lt by (simp add: upt_conv_Cons)
  have IH: "peaks_loop s t (i + 1) acc'
      = acc' @ map (peak_at s) (filter (is_peak s t) [i + 1..<length s - 1])" for acc'
    using Suc.hyps(1)[OF k] .
  have "peaks_loop s t i acc =
      (if is_peak s t i then peaks_loop s t (i + 1) (acc @ [peak_at s i])
       else peaks_loop s t (i + 1) acc)"
    using lt by (subst peaks_loop_step) (simp only: if_True)
  also have "\<dots> = acc @ map (peak_at s) (filter (is_peak s t) (i # [i + 1..<length s - 1]))"
    by (simp only: IH) simp
  finally show ?case by (simp only: upt)
qed

text \<open>
  Claim C6. \<open>detectFTRTPeaks\<close> returns, in order, one record for each position
  \<open>0 < i < length - 1\<close> whose index is strictly greater than both neighbours and than the
  threshold, so the first and the last element are never peaks. A peak's significance
  is \<open>extreme\<close> above 0.85, \<open>high\<close> above 0.75 and \<open>moderate\<close> otherwise. On the indices
  0.1, 0.3, 0.6, 0.9, 0.5, 0.2 with threshold 0.7 the result is the single peak at the
  position that holds 0.9.
\<close>

theorem detectFTRTPeaks_strict_local_maxima:
  "detectFTRTPeaks s t = map (peak_at s) (filter (is_peak s t) [1..<length s - 1])
   \<and> (\<forall>p \<in> set (detectFTRTPeaks s t).
         significance p =
           (if js_gt (index p) (Fin (85 / 100)) then ''extreme''
            else if js_gt (index p) (Fin (75 / 100)) then ''high'' else ''moderate''))
   \<and> (map normalizedIndex s
         = [Fin (1 / 10), Fin (3 / 10), Fin (6 / 10), Fin (9 / 10), Fin (5 / 10), Fin (2 / 10)] \<longrightarrow>
       detectFTRTPeaks s (Fin (7 / 10)) = [peak_at s 3]
       \<and> index (peak_at s 3) = Fin (9 / 10) \<and> significance (peak_at s 3) = ''extreme'')"
proof (intro conjI impI)
  show eq: "detectFTRTPeaks s t = map (peak_at s) (filter (is_peak s t) [1..<length s - 1])"
    by (simp add: detectFTRTPeaks_def peaks_loop_filter)
  show "\<forall>p \<in> set (detectFTRTPeaks s t).
         significance p =
           (if js_gt (index p) (Fin (85 / 100)) then ''extreme''
            else if js_gt (index p) (Fin (75 / 100)) then ''high'' else ''moderate'')"
    unfolding eq by (auto simp: peak_at_def band_def)
next
  assume h: "map normalizedIndex s
    = [Fin (1 / 10), Fin (3 / 10), Fin (6 / 10), Fin (9 / 10), Fin (5 / 10), Fin (2 / 10)]"
  have "length (map normalizedIndex s) = 6" by (simp only: h) simp
  then have len: "length s = 6" by simp
  have nth: "normalizedIndex (s ! i) = map normalizedIndex s ! i" if "i < 6" for i
    using that len by simp
  have v: "normalizedIndex (s ! 0) = Fin (1 / 10)" "normalizedIndex (s ! 1) = Fin (3 / 10)"
    "normalizedIndex (s ! 2) = Fin (6 / 10)" "normalizedIndex (s ! 3) = Fin (9 / 10)"
    "normalizedIndex (s ! 4) = Fin (5 / 10)" "normalizedIndex (s ! 5) = Fin (2 / 10)"
    by (simp_all add: nth h)
  have v0: "normalizedIndex (s ! Suc 0) = Fin (3 / 10)" using v(2) by simp
  have upt: "[1..<length s - 1] = [Suc 0, 2, 3, 4]"
    by (simp add: len upt_conv_Cons)
  have "filter (is_peak s (Fin (7 / 10))) [Suc 0, 2, 3, 4] = [3]"
    by (simp add: is_peak_def js_gt_def v v0)
  then show "detectFTRTPeaks s (Fin (7 / 10)) = [peak_at s 3]"
    by (simp only: detectFTRTPeaks_def peaks_loop_filter upt append_Nil list.map)
  show "index (peak_at s 3) = Fin (9 / 10)"
    by (simp add: peak_at_def v)
  show "significance (peak_at s 3) = ''extreme''"
    by (simp add: peak_at_def band_def js_gt_def v)
qed


theorem detectFTRTPeaks_strict_local_maxima_witness:
  "map (\<lambda>p. (index p, significance p))
     (detectFTRTPeaks
        (map (\<lambda>v. \<lparr>date = \<lparr>getFullYear = 2000, getMonth = 0, getDate = 1\<rparr>,
                   julianDay = Fin 0, totalForce = Fin 0, normalizedIndex = v,
                   individualForces = [], dominantPlanet = ''jupiter'',
                   dominantForcePercentage = Fin 0\<rparr>)
           [Fin (1 / 10), Fin (3 / 10), Fin (6 / 10), Fin (9 / 10), Fin (5 / 10), Fin (2 / 10)])
        (Fin (7 / 10)))
   = [(Fin (9 / 10), ''extreme'')]"
  using detectFTRTPeaks_strict_local_maxima
    [of "map (\<lambda>v. \<lparr>date = \<lparr>getFullYear = 2000, getMonth = 0, getDate = 1\<rparr>,
                   julianDay = Fin 0, totalForce = Fin 0, normalizedIndex = v,
                   individualForces = [], dominantPlanet = ''jupiter'',
                   dominantForcePercentage = Fin 0\<rparr>)
           [Fin (1 / 10), Fin (3 / 10), Fin (6 / 10), Fin (9 / 10), Fin (5 / 10), Fin (2 / 10)]"
        "Fin (7 / 10)", THEN conjunct2, THEN conjunct2]
  by (simp add: peak_at_def band_def js_gt_def)

section \<open>Tidal forces and the FTRT index\<close>

lemma tidal_force_positive:
  assumes "map_of PLANETS name = Some pl"
    and "mass pl = Fin m" "semiMajorAxis pl = Fin a" "period pl = Fin per"
    and "0 < m" "0 < a" "per \<noteq> 0"
  shows "\<exists>f. 0 < f \<and> calculatePlanetaryTidalForce name (Fin j) = Fin f"
proof -
  define c where "c = cos (2 * pi * j / per)"
  define dist where "dist = a * (1 + 5 / 100 * c)"
  have "- 1 \<le> c" unfolding c_def by simp
  then have "0 < 1 + 5 / 100 * c" by simp
  with \<open>0 < a\<close> have dpos: "0 < dist" unfolding dist_def by simp
  then have d3: "0 < dist ^ 3" by simp
  define f where "f = 2 * (6674 / 10 ^ 14) * m * (696 * 10 ^ 6) / dist ^ 3"
  have fpos: "0 < f" unfolding f_def using \<open>0 < m\<close> d3 by simp
  have ma: "js_div (js_mul (js_mul (Fin 2) (Fin pi)) (Fin j)) (Fin per) = Fin (2 * pi * j / per)"
    using \<open>per \<noteq> 0\<close> by simp
  have di: "js_mul (Fin a) (js_add (Fin 1) (js_mul (Fin (5 / 100)) (js_cos (Fin (2 * pi * j / per)))))
      = Fin dist"
    by (simp add: dist_def c_def)
  have tf: "js_div (js_mul (js_mul (js_mul (Fin 2) (Fin (6674 / 10 ^ 14))) (Fin m)) (Fin (696 * 10 ^ 6)))
        (js_pow (Fin dist) 3) = Fin f"
    using d3 by (simp add: f_def)
  have "calculatePlanetaryTidalForce name (Fin j) = Fin f"
    by (simp only: calculatePlanetaryTidalForce_def GRAVITATIONAL_CONSTANT_def SUN_RADIUS_def
          Let_def assms(1-4) option.case ma di tf)
  with fpos show ?thesis by blast
qed

lemma planets_force_positive:
  assumes "name \<in> set (map fst PLANETS)"
  shows "\<exists>f. 0 < f \<and> calculatePlanetaryTidalForce name (Fin j) = Fin f"
proof -
  from assms obtain pl where pl: "map_of PLANETS name = Some pl"
    by (metis map_of_eq_None_iff not_Some_eq set_map)
  then have "(name, pl) \<in> set PLANETS" by (rule map_of_SomeD)
  then have "(case mass pl of Fin m \<Rightarrow> 0 < m | _ \<Rightarrow> False)
      \<and> (case semiMajorAxis pl of Fin a \<Rightarrow> 0 < a | _ \<Rightarrow> False)
      \<and> (case period pl of Fin per \<Rightarrow> per \<noteq> 0 | _ \<Rightarrow> False)"
    unfolding PLANETS_def by auto
  then have "\<exists>m a per. mass pl = Fin m \<and> semiMajorAxis pl = Fin a \<and> period pl = Fin per
      \<and> 0 < m \<and> 0 < a \<and> per \<noteq> 0"
    by (auto split: jsnum.splits)
  with pl show ?thesis using tidal_force_positive by blast
qed

lemma forces_loop_Fin:
  assumes "\<forall>n \<in> set names. \<exists>f. 0 < f \<and> calculatePlanetaryTidalForce n jd = Fin f"
  shows "\<exists>fs. length fs = length names \<and> (\<forall>f \<in> set fs. 0 < f)
           \<and> forces_loop jd names (acc, Fin t)
               = (acc @ zip names (map Fin fs), Fin (t + sum_list fs))"
  using assms
proof (induction names arbitrary: acc t)
  case Nil
  show ?case by simp
next
  case (Cons n names)
  from Cons.prems obtain f where f: "0 < f" "calculatePlanetaryTidalForce n jd = Fin f"
    by auto
  from Cons.prems have rest: "\<forall>n \<in> set names. \<exists>f. 0 < f \<and> calculatePlanetaryTidalForce n jd = Fin f"
    by simp
  from Cons.IH[OF rest, of "acc @ [(n, Fin f)]" "t + f"]
  obtain fs where fs: "length fs = length names" "\<forall>f \<in> set fs. 0 < f"
    "forces_loop jd names (acc @ [(n, Fin f)], Fin (t + f))
       = ((acc @ [(n, Fin f)]) @ zip names (map Fin fs), Fin (t + f + sum_list fs))"
    by blast
  show ?case
    by (rule exI[of _ "f # fs"]) (simp add: f fs add.assoc)
qed


lemma dominant_fold:
  fixes F :: "string \<Rightarrow> jsnum" and g :: "nat \<Rightarrow> real"
  assumes "\<forall>i < length ns. F (ns ! i) = Fin (g i)" "ns \<noteq> []"
  shows "\<exists>i < length ns.
           foldl (\<lambda>mx p. if js_gt (F p) (F mx) then p else mx) (hd ns) (tl ns) = ns ! i
           \<and> (\<forall>j < length ns. g j \<le> g i) \<and> (\<forall>j < i. g j < g i)"
  using assms
proof (induction ns rule: rev_induct)
  case Nil
  then show ?case by simp
next
  case (snoc p ms)
  show ?case
  proof (cases "ms = []")
    case True
    then show ?thesis by simp
  next
    case False
    have F_ms: "\<forall>i < length ms. F (ms ! i) = Fin (g i)"
    proof (intro allI impI)
      fix i assume "i < length ms"
      then show "F (ms ! i) = Fin (g i)"
        using snoc.prems(1)[rule_format, of i] by (simp add: nth_append)
    qed
    have F_p: "F p = Fin (g (length ms))"
      using snoc.prems(1)[rule_format, of "length ms"] by simp
    from snoc.IH[OF F_ms False] obtain i where i: "i < length ms"
      and r: "foldl (\<lambda>mx p. if js_gt (F p) (F mx) then p else mx) (hd ms) (tl ms) = ms ! i"
      and mx: "\<forall>j < length ms. g j \<le> g i" and first: "\<forall>j < i. g j < g i"
      by blast
    define f where "f = (\<lambda>mx p. if js_gt (F p) (F mx) then p else mx)"
    have "foldl f (hd (ms @ [p])) (tl (ms @ [p])) = f (foldl f (hd ms) (tl ms)) p"
      using False by simp
    also have "\<dots> = f (ms ! i) p" using r by (simp only: f_def)
    also have "\<dots> = (if g i < g (length ms) then p else ms ! i)"
      using i by (simp add: f_def F_p F_ms js_gt_def)
    finally have step: "foldl (\<lambda>mx p. if js_gt (F p) (F mx) then p else mx)
          (hd (ms @ [p])) (tl (ms @ [p]))
        = (if g i < g (length ms) then p else ms ! i)"
      by (simp only: f_def)
    show ?thesis
    proof (cases "g i < g (length ms)")
      case True
      have "\<forall>j < length (ms @ [p]). g j \<le> g (length ms)"
        using mx True by (auto simp: less_Suc_eq intro: order_trans less_imp_le)
      moreover have "\<forall>j < length ms. g j < g (length ms)"
        using mx True by (auto intro: le_less_trans)
      ultimately show ?thesis
        using True step by (intro exI[of _ "length ms"]) simp
    next
      case False
      have "\<forall>j < length (ms @ [p]). g j \<le> g i"
        using mx False by (auto simp: less_Suc_eq)
      then show ?thesis
        using False step i first by (intro exI[of _ i]) (simp add: nth_append)
    qed
  qed
qed

lemma element_le_sum:
  "\<forall>f \<in> set fs. 0 < f \<Longrightarrow> k < length fs \<Longrightarrow> fs ! k \<le> sum_list (fs :: real list)"
  by (rule member_le_sum_list) (auto intro: less_imp_le)

lemma sum_positive:
  "\<forall>f \<in> set fs. 0 < f \<Longrightarrow> fs \<noteq> [] \<Longrightarrow> 0 < sum_list (fs :: real list)"
  by (induction fs) (auto intro: add_pos_nonneg sum_list_nonneg less_imp_le)

lemma distinct_planet_names: "distinct (map fst PLANETS)"
  by (simp add: PLANETS_def)


text \<open>
  Claim C2. For every date \<open>calculateFTRT\<close> returns a record. Its \<open>normalizedIndex\<close> is
  \<open>min(totalForce / FTRT_REFERENCE_FORCE, 1)\<close> and lies in [0, 1]. Its \<open>individualForces\<close>
  hold one real force per planet of the table, in table order; \<open>dominantPlanet\<close> is the
  planet at the first position whose force is the greatest. Its
  \<open>dominantForcePercentage\<close> lies in (0, 100]. This holds for every triple of calendar
  fields, hence for every valid date.
\<close>

theorem calculateFTRT_index_and_dominant:
  "\<exists>r fs k. calculateFTRT d = Inr r
     \<and> normalizedIndex r = js_min2 (js_div (totalForce r) FTRT_REFERENCE_FORCE) (Fin 1)
     \<and> (\<exists>v. normalizedIndex r = Fin v \<and> 0 \<le> v \<and> v \<le> 1)
     \<and> individualForces r = zip (map fst PLANETS) (map Fin fs)
     \<and> length fs = length PLANETS
     \<and> k < length fs \<and> dominantPlanet r = fst (PLANETS ! k)
     \<and> (\<forall>j < length fs. fs ! j \<le> fs ! k) \<and> (\<forall>j < k. fs ! j < fs ! k)
     \<and> (\<exists>p. dominantForcePercentage r = Fin p \<and> 0 < p \<and> p \<le> 100)"
proof -
  define jd where "jd = Fin (real_of_int (dateToJulianDay d))"
  define names where "names = map fst PLANETS"
  have names_ne: "names \<noteq> []" by (simp add: names_def PLANETS_def)
  have dist: "distinct names" unfolding names_def by (rule distinct_planet_names)
  have "\<forall>n \<in> set names. \<exists>f. 0 < f \<and> calculatePlanetaryTidalForce n jd = Fin f"
    unfolding names_def jd_def using planets_force_positive by blast
  from forces_loop_Fin[OF this, of "[]" 0]
  obtain fs where len: "length fs = length names" and pos: "\<forall>f \<in> set fs. 0 < f"
    and loop: "forces_loop jd names ([], Fin 0) = (zip names (map Fin fs), Fin (sum_list fs))"
    by auto
  define forces where "forces = zip names (map Fin fs)"
  define T where "T = sum_list fs"
  have fs_ne: "fs \<noteq> []" using len names_ne by auto
  have Tpos: "0 < T" unfolding T_def by (rule sum_positive[OF pos fs_ne])
  have keys: "map fst forces = names" by (simp add: forces_def len)
  have F: "\<forall>i < length names. force_of forces (names ! i) = Fin (fs ! i)"
  proof (intro allI impI)
    fix i assume i: "i < length names"
    have "map_of (zip names (map Fin fs)) (names ! i) = Some (map Fin fs ! i)"
      by (rule map_of_zip_nth) (simp_all add: len dist i)
    then show "force_of forces (names ! i) = Fin (fs ! i)"
      using i len by (simp add: force_of_def forces_def)
  qed
  from dominant_fold[OF F names_ne] obtain k where k: "k < length names"
    and dom: "foldl (\<lambda>mx p. if js_gt (force_of forces p) (force_of forces mx) then p else mx)
                (hd names) (tl names) = names ! k"
    and mx: "\<forall>j < length names. fs ! j \<le> fs ! k" and first: "\<forall>j < k. fs ! j < fs ! k"
    by blast
  have hdtl: "names = hd names # tl names" using names_ne by simp
  have dominant: "dominant_of forces = Inr (names ! k)"
    unfolding dominant_of_def keys by (subst hdtl) (simp only: list.case dom)
  define r where "r = \<lparr>date = d, julianDay = jd, totalForce = Fin T,
      normalizedIndex = js_min2 (js_div (Fin T) FTRT_REFERENCE_FORCE) (Fin 1),
      individualForces = forces, dominantPlanet = names ! k,
      dominantForcePercentage = js_mul (js_div (force_of forces (names ! k)) (Fin T)) (Fin 100)\<rparr>"
  have run: "calculateFTRT d = Inr r"
    by (simp add: calculateFTRT_def Let_def jd_def[symmetric] names_def[symmetric] loop
          forces_def[symmetric] T_def[symmetric] dominant r_def)
  have ni: "normalizedIndex r = Fin (min (T / 10 ^ 15) 1)"
    by (simp add: r_def FTRT_REFERENCE_FORCE_def js_min2_def min_def)
  have ni_range: "0 \<le> min (T / 10 ^ 15) 1 \<and> min (T / 10 ^ 15) 1 \<le> 1"
    using Tpos by simp
  have fk_pos: "0 < fs ! k" using pos k len by simp
  have fk_le: "fs ! k \<le> T" unfolding T_def using element_le_sum[OF pos] k len by simp
  have pct: "dominantForcePercentage r = Fin (fs ! k / T * 100)"
    using Tpos k by (simp add: r_def F)
  have pct_range: "0 < fs ! k / T * 100 \<and> fs ! k / T * 100 \<le> 100"
    using fk_pos fk_le Tpos by (simp add: divide_le_eq)
  have nth_name: "names ! k = fst (PLANETS ! k)"
    using k by (simp add: names_def)
  show ?thesis
  proof (intro exI[of _ r] exI[of _ fs] exI[of _ k] conjI)
    show "calculateFTRT d = Inr r" by (rule run)
    show "normalizedIndex r = js_min2 (js_div (totalForce r) FTRT_REFERENCE_FORCE) (Fin 1)"
      by (simp add: r_def)
    show "\<exists>v. normalizedIndex r = Fin v \<and> 0 \<le> v \<and> v \<le> 1"
      using ni ni_range by blast
    show "individualForces r = zip (map fst PLANETS) (map Fin fs)"
      by (simp add: r_def forces_def names_def)
    show "length fs = length PLANETS" using len by (simp add: names_def)
    show "k < length fs" using k len by simp
    show "dominantPlanet r = fst (PLANETS ! k)" by (simp add: r_def nth_name)
    show "\<forall>j < length fs. fs ! j \<le> fs ! k" using mx len by simp
    show "\<forall>j < k. fs ! j < fs ! k" by (rule first)
    show "\<exists>p. dominantForcePercentage r = Fin p \<and> 0 < p \<and> p \<le> 100"
      using pct pct_range by blast
  qed
qed

theorem calculateFTRT_index_and_dominant_witness:
  "\<exists>r. calculateFTRT \<lparr>getFullYear = 2024, getMonth = 1, getDate = 29\<rparr> = Inr r
     \<and> (\<exists>v. normalizedIndex r = Fin v \<and> 0 \<le> v \<and> v \<le> 1)
     \<and> (\<exists>p. dominantForcePercentage r = Fin p \<and> 0 < p \<and> p \<le> 100)
     \<and> dominantPlanet r \<in> set (map fst PLANETS)"
proof -
  from calculateFTRT_index_and_dominant [of "\<lparr>getFullYear = 2024, getMonth = 1, getDate = 29\<rparr>"]
  obtain r fs k where a:
    "calculateFTRT \<lparr>getFullYear = 2024, getMonth = 1, getDate = 29\<rparr> = Inr r
     \<and> normalizedIndex r = js_min2 (js_div (totalForce r) FTRT_REFERENCE_FORCE) (Fin 1)
     \<and> (\<exists>v. normalizedIndex r = Fin v \<and> 0 \<le> v \<and> v \<le> 1)
     \<and> individualForces r = zip (map fst PLANETS) (map Fin fs)
     \<and> length fs = length PLANETS
     \<and> k < length fs \<and> dominantPlanet r = fst (PLANETS ! k)
     \<and> (\<forall>j < length fs. fs ! j \<le> fs ! k) \<and> (\<forall>j < k. fs ! j < fs ! k)
     \<and> (\<exists>p. dominantForcePercentage r = Fin p \<and> 0 < p \<and> p \<le> 100)"
    by (elim exE) (rule that)
  then have "k < length PLANETS" by simp
  then have "fst (PLANETS ! k) \<in> set (map fst PLANETS)"
    by (metis length_map nth_map nth_mem)
  with a show ?thesis by (intro exI[of _ r]) (elim conjE, simp only: simp_thms)
qed

section \<open>Julian Day round trip\<close>

text \<open>
  Claim C3 says that \<open>julianDayToDate\<close> undoes \<open>dateToJulianDay\<close> on every date. For
  1 January of the year 50 it does not: the Julian Day Number is 1739323, the inverse
  computes year 50, month 1 and day 1 from it, and \<open>new Date(50, 0, 1)\<close> is a date in
  1950.
\<close>

theorem julianDayToDate_legacy_year:
  "valid_date \<lparr>getFullYear = 50, getMonth = 0, getDate = 1\<rparr>
   \<and> dateToJulianDay \<lparr>getFullYear = 50, getMonth = 0, getDate = 1\<rparr> = 1739323
   \<and> julianDayToDate (dateToJulianDay \<lparr>getFullYear = 50, getMonth = 0, getDate = 1\<rparr>)
       = \<lparr>getFullYear = 1950, getMonth = 0, getDate = 1\<rparr>
   \<and> julianDayToDate (dateToJulianDay \<lparr>getFullYear = 50, getMonth = 0, getDate = 1\<rparr>)
       \<noteq> \<lparr>getFullYear = 50, getMonth = 0, getDate = 1\<rparr>"
proof -
  have jd: "dateToJulianDay \<lparr>getFullYear = 50, getMonth = 0, getDate = 1\<rparr> = 1739323"
    by (simp add: dateToJulianDay_def)
  have inv: "julianDayToDate 1739323 = \<lparr>getFullYear = 1950, getMonth = 0, getDate = 1\<rparr>"
    unfolding julianDayToDate_def Let_def new_Date_def by simp
  have v: "valid_date \<lparr>getFullYear = 50, getMonth = 0, getDate = 1\<rparr>"
    by (simp add: valid_date_def days_in_month_def)
  show ?thesis by (simp add: jd inv v)
qed

subsection \<open>The round trip outside the two-digit years\<close>

lemma int_div_eqI:
  fixes n d q :: int
  assumes "0 < d" "d * q \<le> n" "n < d * q + d"
  shows "n div d = q"
proof -
  have d0: "d \<noteq> 0" using assms(1) by simp
  have "n = (n - d * q) + q * d" by simp
  then have "n div d = ((n - d * q) + q * d) div d" by simp
  also have "\<dots> = q + (n - d * q) div d" by (rule div_mult_self1[OF d0])
  also have "(n - d * q) div d = 0" using assms by (intro div_pos_pos_trivial) auto
  finally show ?thesis by simp
qed

lemma century_split:
  fixes y :: int
  defines "q \<equiv> y div 100" and "r \<equiv> y mod 100"
  shows "365 * y + y div 4 - y div 100 + y div 400 = 36524 * q + q div 4 + 365 * r + r div 4"
proof -
  have y: "y = r + (25 * q) * 4" by (simp add: q_def r_def)
  have "(r + (25 * q) * 4) div 4 = 25 * q + r div 4" by (rule div_mult_self1) simp
  then have y4: "y div 4 = 25 * q + r div 4" using y by simp
  have y400: "y div 400 = q div 4"
    unfolding q_def by (simp add: div_mult2_eq[symmetric])
  have yeq: "y = 100 * q + r" by (simp add: q_def r_def)
  have "365 * y + (25 * q + r div 4) - q + q div 4 = 36524 * q + q div 4 + 365 * r + r div 4"
    using yeq by linarith
  then show ?thesis by (simp only: y4 y400 q_def[symmetric])
qed


lemma day_number_inverse:
  fixes y e0 a b c d e :: int
  assumes e0: "0 \<le> e0" "e0 \<le> 365"
    and leap: "e0 = 365 \<Longrightarrow> y mod 4 = 3 \<and> (y mod 100 = 99 \<longrightarrow> y mod 400 = 399)"
    and a_def: "a = e0 + 365 * y + y div 4 - y div 100 + y div 400"
    and b_def: "b = (4 * a + 3) div 146097"
    and c_def: "c = a - (146097 * b) div 4"
    and d_def: "d = (4 * c + 3) div 1461"
    and e_def: "e = c - (1461 * d) div 4"
  shows "100 * b + d = y \<and> e = e0"
proof -
  define q where "q = y div 100"
  define r where "r = y mod 100"
  define s where "s = q div 4"
  define qm where "qm = q mod 4"
  define t where "t = r div 4"
  define rm where "rm = r mod 4"
  have yeq: "y = 100 * q + r" by (simp add: q_def r_def)
  have r: "0 \<le> r" "r \<le> 99" by (simp_all add: r_def)
  have qeq: "q = 4 * s + qm" and qm: "0 \<le> qm" "qm \<le> 3"
    by (simp_all add: s_def qm_def)
  have req: "r = 4 * t + rm" and rm: "0 \<le> rm" "rm \<le> 3"
    by (simp_all add: t_def rm_def)
  have t: "0 \<le> t" "t \<le> 24" using r unfolding t_def by presburger+
  have aeq: "a = 36524 * q + s + 365 * r + t + e0"
    using century_split[of y] by (simp add: a_def q_def r_def s_def t_def)
  have rm3: "rm = 3" if "e0 = 365"
  proof -
    from leap[OF that] have "y mod 4 = 3" by simp
    moreover have "y mod 100 mod 4 = y mod 4" by (rule mod_mod_cancel) simp
    ultimately show ?thesis by (simp add: rm_def r_def)
  qed
  have qm3: "qm = 3" if "e0 = 365" "r = 99"
  proof -
    from leap[OF that(1)] that(2) have m: "y mod 400 = 399" by (simp add: r_def)
    define k where "k = y div 400"
    have "y = 400 * k + y mod 400" by (simp add: k_def)
    with m have yk: "y = 400 * k + 399" by simp
    have "y div 100 = 4 * k + 3"
    proof (rule int_div_eqI)
      show "(0::int) < 100" by simp
      show "100 * (4 * k + 3) \<le> y" using yk by simp
      show "y < 100 * (4 * k + 3) + 100" using yk by simp
    qed
    then have "q mod 4 = (3 + k * 4) mod 4" by (simp add: q_def add.commute mult.commute)
    also have "\<dots> = 3" by (simp only: mod_mult_self1) simp
    finally show ?thesis by (simp add: qm_def)
  qed
  have bq: "b = q"
    unfolding b_def
  proof (rule int_div_eqI)
    show "(0::int) < 146097" by simp
    show "146097 * q \<le> 4 * a + 3" using aeq qeq qm r e0 t by linarith
    show "4 * a + 3 < 146097 * q + 146097"
    proof (cases "e0 = 365 \<and> r = 99")
      case True
      then have "qm = 3" using qm3 by simp
      then show ?thesis using aeq qeq r e0 t by linarith
    next
      case False
      then have "365 * r + e0 \<le> 36499" using r e0 by linarith
      then show ?thesis using aeq qeq qm r e0 t by linarith
    qed
  qed
  have "(146097 * q) div 4 = 36524 * q + s"
  proof (rule int_div_eqI)
    show "(0::int) < 4" by simp
    show "4 * (36524 * q + s) \<le> 146097 * q" using qeq qm by simp
    show "146097 * q < 4 * (36524 * q + s) + 4" using qeq qm by simp
  qed
  then have cx: "c = 365 * r + t + e0" unfolding c_def bq using aeq by linarith
  have dr: "d = r"
    unfolding d_def
  proof (rule int_div_eqI)
    show "(0::int) < 1461" by simp
    show "1461 * r \<le> 4 * c + 3" using cx req rm e0 by linarith
    show "4 * c + 3 < 1461 * r + 1461"
    proof (cases "e0 = 365")
      case True
      then have "rm = 3" by (rule rm3)
      then show ?thesis using cx req True by linarith
    next
      case False
      then have "e0 \<le> 364" using e0 by linarith
      then show ?thesis using cx req rm by linarith
    qed
  qed
  have "(1461 * r) div 4 = 365 * r + t"
  proof (rule int_div_eqI)
    show "(0::int) < 4" by simp
    show "4 * (365 * r + t) \<le> 1461 * r" using req rm by simp
    show "1461 * r < 4 * (365 * r + t) + 4" using req rm by simp
  qed
  then have "e = e0" unfolding e_def dr using cx by linarith
  with bq dr yeq show ?thesis by simp
qed


lemma leap_year_shifted:
  assumes "leap_year Y"
  shows "(Y + 4799) mod 4 = 3 \<and> ((Y + 4799) mod 100 = 99 \<longrightarrow> (Y + 4799) mod 400 = 399)"
proof (intro conjI impI)
  from assms have y4: "Y mod 4 = 0" by (simp add: leap_year_def)
  have "(Y + 4799) mod 4 = (Y mod 4 + 4799 mod 4) mod 4" by (simp only: mod_add_eq)
  then show "(Y + 4799) mod 4 = 3" using y4 by simp
next
  assume h: "(Y + 4799) mod 100 = 99"
  have "(Y + 4799) mod 100 = (Y mod 100 + 4799 mod 100) mod 100" by (simp only: mod_add_eq)
  with h have u: "(Y mod 100 + 99) mod 100 = 99" by simp
  have "Y mod 100 = 0"
  proof (rule ccontr)
    assume "Y mod 100 \<noteq> 0"
    moreover have "0 \<le> Y mod 100" "Y mod 100 < 100" by simp_all
    ultimately have lo: "1 \<le> Y mod 100" and hi: "Y mod 100 \<le> 99" by linarith+
    have "(Y mod 100 + 99) div 100 = 1"
      by (rule int_div_eqI) (use lo hi in simp_all)
    then have "(Y mod 100 + 99) mod 100 = Y mod 100 + 99 - 100"
      by (simp add: minus_div_mult_eq_mod[symmetric])
    with u hi show False by linarith
  qed
  with assms have "Y mod 400 = 0" by (simp add: leap_year_def)
  moreover have "(Y + 4799) mod 400 = (Y mod 400 + 4799 mod 400) mod 400"
    by (simp only: mod_add_eq)
  ultimately show "(Y + 4799) mod 400 = 399" by simp
qed

lemma march_based_fields:
  fixes Y mi D a0 m e0 :: int
  assumes "0 \<le> mi" "mi \<le> 11" "1 \<le> D" "D \<le> days_in_month Y mi"
    and a0_def: "a0 = (14 - (mi + 1)) div 12"
    and m_def: "m = (mi + 1) + 12 * a0 - 3"
    and e0_def: "e0 = D - 1 + (153 * m + 2) div 5"
  shows "0 \<le> e0 \<and> e0 \<le> 365 \<and> (e0 = 365 \<longrightarrow> mi = 1 \<and> D = 29)
       \<and> (5 * e0 + 2) div 153 = m \<and> m + 3 - 12 * (m div 10) - 1 = mi
       \<and> m div 10 = a0 \<and> (a0 = 1 \<or> a0 = 0) \<and> (mi = 1 \<longrightarrow> a0 = 1)"
proof -
  from assms(1,2) have "mi \<in> set [0..11]" by simp
  then consider "mi = 0" | "mi = 1" | "mi = 2" | "mi = 3" | "mi = 4" | "mi = 5"
    | "mi = 6" | "mi = 7" | "mi = 8" | "mi = 9" | "mi = 10" | "mi = 11"
    by (auto simp: upto_rec1)
  then show ?thesis
    using assms(3,4)
    by cases
      (auto simp: a0_def m_def e0_def days_in_month_def intro!: int_div_eqI split: if_splits)
qed


lemma julianDayToDate_stepwise:
  assumes "a = jd + 32044" "b = (4 * a + 3) div 146097" "c = a - (146097 * b) div 4"
    "d = (4 * c + 3) div 1461" "e = c - (1461 * d) div 4" "m = (5 * e + 2) div 153"
  shows "julianDayToDate jd =
     new_Date (100 * b + d - 4800 + m div 10) (m + 3 - 12 * (m div 10) - 1)
       (e - (153 * m + 2) div 5 + 1)"
  unfolding julianDayToDate_def Let_def assms by (rule refl)

text \<open>
  Outside the years 0 to 99 the round trip holds for every valid calendar date: the
  two-digit-year rule of the constructor is the only thing that breaks it.
\<close>

lemma julian_round_trip_outside_legacy_years:
  assumes valid: "valid_date dt" and year: "getFullYear dt < 0 \<or> 99 < getFullYear dt"
  shows "julianDayToDate (dateToJulianDay dt) = dt"
proof -
  define Y where "Y = getFullYear dt"
  define mi where "mi = getMonth dt"
  define D where "D = getDate dt"
  define a0 where "a0 = (14 - (mi + 1)) div 12"
  define m where "m = (mi + 1) + 12 * a0 - 3"
  define e0 where "e0 = D - 1 + (153 * m + 2) div 5"
  define y where "y = Y + 4800 - a0"
  from valid have v: "0 \<le> mi" "mi \<le> 11" "1 \<le> D" "D \<le> days_in_month Y mi"
    by (simp_all add: valid_date_def Y_def mi_def D_def)
  note F = march_based_fields[OF v a0_def m_def e0_def]
  have jd: "dateToJulianDay dt + 32044 = e0 + 365 * y + y div 4 - y div 100 + y div 400"
    by (simp add: dateToJulianDay_def Let_def e0_def y_def m_def a0_def Y_def mi_def D_def)
  have leap: "y mod 4 = 3 \<and> (y mod 100 = 99 \<longrightarrow> y mod 400 = 399)" if "e0 = 365"
  proof -
    from F that have feb: "mi = 1" "D = 29" "a0 = 1" by simp_all
    with v(4) have "leap_year Y" by (simp add: days_in_month_def split: if_splits)
    note shifted = leap_year_shifted[OF this]
    have yY: "y = Y + 4799" by (simp add: y_def feb)
    show ?thesis unfolding yY by (rule shifted)
  qed
  define a where "a = dateToJulianDay dt + 32044"
  define b where "b = (4 * a + 3) div 146097"
  define c where "c = a - (146097 * b) div 4"
  define d where "d = (4 * c + 3) div 1461"
  define e where "e = c - (1461 * d) div 4"
  define m' where "m' = (5 * e + 2) div 153"
  have inv: "100 * b + d = y \<and> e = e0"
    by (rule day_number_inverse[OF _ _ leap _ b_def c_def d_def e_def])
       (use F in \<open>simp_all add: a_def jd\<close>)
  then have m'_eq: "m' = m" using F by (simp add: m'_def)
  have "julianDayToDate (dateToJulianDay dt) =
      new_Date (100 * b + d - 4800 + m' div 10) (m' + 3 - 12 * (m' div 10) - 1)
        (e - (153 * m' + 2) div 5 + 1)"
    by (rule julianDayToDate_stepwise[OF a_def b_def c_def d_def e_def m'_def])
  also have "\<dots> = new_Date Y mi D"
  proof -
    have "100 * b + d - 4800 + m' div 10 = Y" using inv F by (simp add: m'_eq y_def)
    moreover have "m' + 3 - 12 * (m' div 10) - 1 = mi" using F by (simp add: m'_eq)
    moreover have "e - (153 * m' + 2) div 5 + 1 = D" using inv by (simp add: m'_eq e0_def)
    ultimately show ?thesis by simp
  qed
  also have "\<dots> = dt"
    using year by (auto simp: new_Date_def Y_def mi_def D_def)
  finally show ?thesis .
qed

end
